theory Spec2Isabelle
  imports Main "HOL-Library.AList"
begin

section \<open>The AG-UI event stream hook (use-agui-stream.ts)\<close>

text \<open>
  The hook \<open>useAGUIStream\<close> keeps one \<open>AGUIClientState\<close> (React state), a set of hidden
  message ids (a ref) and the refs of the push channel (the current \<open>EventSource\<close>, the
  reconnect timer and the reconnect attempt counter). Every handler runs to completion, so
  each handler is a function from the values it reads to the values it writes.
\<close>

subsection \<open>Channel: connect, onopen, onerror, disconnect\<close>

text \<open>
  An \<open>EventSource\<close> object is modelled by a number (its identity): \<open>onerror\<close> compares
  the object it belongs to with the one the ref holds. \<open>reconnectTimeoutRef\<close> holds the
  delay of the timer last scheduled. JavaScript numbers are doubles: \<open>Math.pow(2, n - 1)\<close>
  is exact up to \<open>2 ^ 1023\<close> and \<open>Infinity\<close> beyond, and \<open>Math.min\<close> with \<open>30000\<close>
  gives the same value as on the naturals.
\<close>

record channel =
  eventSourceRef :: "nat option"
  reconnectTimeoutRef :: "nat option"
  reconnectAttemptsRef :: nat
  mountedRef :: bool
  created :: nat

definition MAX_RECONNECT_DELAY :: nat where
  "MAX_RECONNECT_DELAY = 30000"

definition BASE_RECONNECT_DELAY :: nat where
  "BASE_RECONNECT_DELAY = 1000"

definition initialChannel :: channel where
  "initialChannel = \<lparr> eventSourceRef = None, reconnectTimeoutRef = None,
     reconnectAttemptsRef = 0, mountedRef = True, created = 0 \<rparr>"

text \<open>\<open>connect\<close>: closes the connection held by the ref and opens a new \<open>EventSource\<close>.\<close>

definition connect :: "channel \<Rightarrow> channel" where
  "connect ch = ch\<lparr> eventSourceRef := Some (created ch), created := Suc (created ch) \<rparr>"

text \<open>\<open>eventSource.onopen\<close>: resets the attempt counter.\<close>

definition onopen :: "channel \<Rightarrow> channel" where
  "onopen ch = ch\<lparr> reconnectAttemptsRef := 0 \<rparr>"

text \<open>
  \<open>eventSource.onerror\<close> of the object \<open>es\<close>: returns the channel and the delay of the
  reconnect it scheduled, if it scheduled one.
\<close>

definition onerror :: "nat \<Rightarrow> channel \<Rightarrow> channel \<times> nat option" where
  "onerror es ch =
     (if eventSourceRef ch \<noteq> Some es then (ch, None)
      else let ch1 = ch\<lparr> eventSourceRef := None \<rparr> in
        if \<not> mountedRef ch1 then (ch1, None)
        else let attempts = reconnectAttemptsRef ch1 + 1;
                 delay = min (BASE_RECONNECT_DELAY * 2 ^ (attempts - 1)) MAX_RECONNECT_DELAY
             in (ch1\<lparr> reconnectAttemptsRef := attempts, reconnectTimeoutRef := Some delay \<rparr>,
                 Some delay))"

text \<open>The timer's callback: reconnects while the component is mounted.\<close>

definition timerFired :: "channel \<Rightarrow> channel" where
  "timerFired ch = (if mountedRef ch then connect ch else ch)"

definition disconnect :: "channel \<Rightarrow> channel" where
  "disconnect ch = ch\<lparr> reconnectTimeoutRef := None, eventSourceRef := None \<rparr>"

definition unmount :: "channel \<Rightarrow> channel" where
  "unmount ch = ch\<lparr> mountedRef := False \<rparr>"

datatype channel_action =
    Connect
  | Open
  | TransportError nat
  | TimerFired
  | Disconnect
  | Unmount

fun channel_step :: "channel_action \<Rightarrow> channel \<Rightarrow> channel \<times> nat option" where
  "channel_step Connect ch = (connect ch, None)"
| "channel_step Open ch = (onopen ch, None)"
| "channel_step (TransportError es) ch = onerror es ch"
| "channel_step TimerFired ch = (timerFired ch, None)"
| "channel_step Disconnect ch = (disconnect ch, None)"
| "channel_step Unmount ch = (unmount ch, None)"

text \<open>The delays of the reconnects scheduled while a list of actions runs, in order.\<close>

fun scheduled_delays :: "channel_action list \<Rightarrow> channel \<Rightarrow> nat list" where
  "scheduled_delays [] ch = []"
| "scheduled_delays (a # as) ch =
     (case channel_step a ch of
        (ch', None) \<Rightarrow> scheduled_delays as ch'
      | (ch', Some d) \<Rightarrow> d # scheduled_delays as ch')"

fun run_channel :: "channel_action list \<Rightarrow> channel \<Rightarrow> channel" where
  "run_channel [] ch = ch"
| "run_channel (a # as) ch = run_channel as (fst (channel_step a ch))"

subsection \<open>The conversation state\<close>

text \<open>Types of \<open>types/agui.ts\<close>.\<close>

text \<open>
  Optional fields are options. A JavaScript test \<open>if (x)\<close> or \<open>x || y\<close> on a string that
  may be missing holds when the string is present and not empty.
\<close>

definition truthy :: "string option \<Rightarrow> bool" where
  "truthy x = (case x of None \<Rightarrow> False | Some v \<Rightarrow> v \<noteq> [])"

definition js_or :: "string option \<Rightarrow> string option \<Rightarrow> string option" where
  "js_or x y = (if truthy x then x else y)"

definition or_else :: "string option \<Rightarrow> string \<Rightarrow> string" where
  "or_else x d = (case x of None \<Rightarrow> d | Some v \<Rightarrow> if v = [] then d else v)"

datatype tool_status = ToolPending | ToolRunning | ToolCompleted | ToolError

text \<open>
  \<open>PlatformToolCall\<close>: \<open>tc_name\<close> and \<open>tc_arguments\<close> are \<open>function.name\<close> and
  \<open>function.arguments\<close> (an empty string where the snapshot leaves them out); the constant
  \<open>type: 'function'\<close> is not stored.
\<close>

record PlatformToolCall =
  tc_id :: string
  tc_name :: string
  tc_arguments :: string
  tc_result :: "string option"
  tc_status :: "tool_status option"
  tc_parentToolUseId :: "string option"

record PlatformMessage =
  m_id :: string
  m_role :: string
  m_content :: "string option"
  m_timestamp :: "string option"
  m_name :: "string option"
  m_toolCalls :: "PlatformToolCall list option"
  m_toolCallId :: "string option"
  m_metadata :: "(string option \<times> string option) option"

record PendingToolCall =
  p_id :: string
  p_name :: string
  p_args :: string
  p_parentToolUseId :: "string option"
  p_parentMessageId :: "string option"
  p_timestamp :: string

record CurrentMessage =
  cm_id :: "string option"
  cm_role :: "string option"
  cm_content :: string
  cm_timestamp :: string

record CurrentToolCall =
  ct_id :: "string option"
  ct_name :: "string option"
  ct_args :: string
  ct_parentToolUseId :: "string option"

record PlatformActivity =
  a_id :: string
  a_type :: string
  a_status :: "tool_status option"
  a_progress :: "int option"

record PlatformActivityPatch =
  ap_op :: string
  ap_activity :: PlatformActivity

datatype jvalue =
    JNull
  | JBool bool
  | JNum int
  | JStr string
  | JArr "jvalue list"
  | JObj "(string \<times> jvalue) list"

record StatePatch =
  sp_op :: string
  sp_path :: string
  sp_value :: jvalue

datatype client_status = Idle | Connecting | Connected | StatusError | StatusCompleted

text \<open>
  \<open>AGUIClientState\<close>. A JavaScript \<open>Map\<close> keeps its keys in insertion order and the
  reducer iterates over \<open>pendingChildren\<close>, so the maps are association lists:
  \<open>AList.update\<close> replaces the value of a key in place or appends the key at the end, as
  \<open>Map.set\<close> does, and \<open>AList.delete\<close> is \<open>Map.delete\<close>.
\<close>

record AGUIClientState =
  threadId :: "string option"
  runId :: "string option"
  status :: client_status
  messages :: "PlatformMessage list"
  state :: "(string \<times> jvalue) list"
  activities :: "PlatformActivity list"
  currentMessage :: "CurrentMessage option"
  currentToolCall :: "CurrentToolCall option"
  pendingToolCalls :: "(string \<times> PendingToolCall) list"
  pendingChildren :: "(string \<times> PlatformMessage list) list"
  error :: "string option"
  messageFeedback :: "(string \<times> string) list"

definition initialState :: AGUIClientState where
  "initialState = \<lparr> threadId = None, runId = None, status = Idle, messages = [],
     state = [], activities = [], currentMessage = None, currentToolCall = None,
     pendingToolCalls = [], pendingChildren = [], error = None, messageFeedback = [] \<rparr>"

text \<open>The payload of a RAW event (\<open>event.event\<close> or the legacy \<open>event.data\<close>).\<close>

record RawData =
  r_type :: "string option"
  r_hidden :: bool
  r_messageId :: "string option"
  r_traceId :: "string option"
  r_thinking :: "string option"
  r_signature :: "string option"
  r_role :: "string option"
  r_content :: "string option"
  r_id :: "string option"

text \<open>
  A parsed event is a JavaScript object: the discriminator \<open>type\<close> and the fields the
  handlers read, whatever the type says. \<open>e_timestamp\<close> is \<open>String(event.timestamp)\<close>
  where the event has one.
\<close>

record PlatformEvent =
  e_type :: string
  e_threadId :: string
  e_runId :: string
  e_message :: string
  e_messageId :: "string option"
  e_role :: "string option"
  e_delta :: string
  e_timestamp :: "string option"
  e_toolCallId :: string
  e_toolCallName :: string
  e_parentMessageId :: "string option"
  e_parent_tool_call_id :: "string option"
  e_content :: string
  e_snapshot :: "(string \<times> jvalue) list"
  e_stateDelta :: "StatePatch list"
  e_messages :: "PlatformMessage list"
  e_activities :: "PlatformActivity list option"
  e_activityDelta :: "PlatformActivityPatch list option"
  e_stepName :: string
  e_event :: "RawData option"
  e_data :: "RawData option"
  e_metaType :: string
  e_payloadMessageId :: "string option"

subsection \<open>Event types and helpers\<close>

text \<open>
  The values of \<open>EventType\<close> of the package \<open>@ag-ui/client\<close>, which the type guards
  compare \<open>event.type\<close> with: each is the name of the member.
\<close>

definition RUN_STARTED :: string where "RUN_STARTED = ''RUN_STARTED''"
definition RUN_FINISHED :: string where "RUN_FINISHED = ''RUN_FINISHED''"
definition RUN_ERROR :: string where "RUN_ERROR = ''RUN_ERROR''"
definition TEXT_MESSAGE_START :: string where "TEXT_MESSAGE_START = ''TEXT_MESSAGE_START''"
definition TEXT_MESSAGE_CONTENT :: string where "TEXT_MESSAGE_CONTENT = ''TEXT_MESSAGE_CONTENT''"
definition TEXT_MESSAGE_END :: string where "TEXT_MESSAGE_END = ''TEXT_MESSAGE_END''"
definition TOOL_CALL_START :: string where "TOOL_CALL_START = ''TOOL_CALL_START''"
definition TOOL_CALL_ARGS :: string where "TOOL_CALL_ARGS = ''TOOL_CALL_ARGS''"
definition TOOL_CALL_END :: string where "TOOL_CALL_END = ''TOOL_CALL_END''"
definition TOOL_CALL_RESULT :: string where "TOOL_CALL_RESULT = ''TOOL_CALL_RESULT''"
definition STATE_SNAPSHOT :: string where "STATE_SNAPSHOT = ''STATE_SNAPSHOT''"
definition STATE_DELTA :: string where "STATE_DELTA = ''STATE_DELTA''"
definition MESSAGES_SNAPSHOT :: string where "MESSAGES_SNAPSHOT = ''MESSAGES_SNAPSHOT''"
definition ACTIVITY_SNAPSHOT :: string where "ACTIVITY_SNAPSHOT = ''ACTIVITY_SNAPSHOT''"
definition ACTIVITY_DELTA :: string where "ACTIVITY_DELTA = ''ACTIVITY_DELTA''"
definition STEP_STARTED :: string where "STEP_STARTED = ''STEP_STARTED''"
definition STEP_FINISHED :: string where "STEP_FINISHED = ''STEP_FINISHED''"
definition RAW :: string where "RAW = ''RAW''"
definition META :: string where "META = ''META''"

lemmas EventType_defs = RUN_STARTED_def RUN_FINISHED_def RUN_ERROR_def TEXT_MESSAGE_START_def
  TEXT_MESSAGE_CONTENT_def TEXT_MESSAGE_END_def TOOL_CALL_START_def TOOL_CALL_ARGS_def
  TOOL_CALL_END_def TOOL_CALL_RESULT_def STATE_SNAPSHOT_def STATE_DELTA_def
  MESSAGES_SNAPSHOT_def ACTIVITY_SNAPSHOT_def ACTIVITY_DELTA_def STEP_STARTED_def
  STEP_FINISHED_def RAW_def META_def

text \<open>\<open>Array.prototype.findIndex\<close>, and the index a loop from the last element down finds.\<close>

fun findIndex :: "('a \<Rightarrow> bool) \<Rightarrow> 'a list \<Rightarrow> nat option" where
  "findIndex P [] = None"
| "findIndex P (x # xs) = (if P x then Some 0 else map_option Suc (findIndex P xs))"

fun findLastIndex :: "('a \<Rightarrow> bool) \<Rightarrow> 'a list \<Rightarrow> nat option" where
  "findLastIndex P [] = None"
| "findLastIndex P (x # xs) =
     (case findLastIndex P xs of
        Some i \<Rightarrow> Some (Suc i)
      | None \<Rightarrow> if P x then Some 0 else None)"

text \<open>\<open>msg.toolCalls?.some(tc => tc.id === t)\<close> and \<open>msg.toolCalls || []\<close>.\<close>

definition hasToolCall :: "string \<Rightarrow> PlatformMessage \<Rightarrow> bool" where
  "hasToolCall t msg =
     (case m_toolCalls msg of None \<Rightarrow> False | Some tcs \<Rightarrow> list_ex (\<lambda>tc. tc_id tc = t) tcs)"

definition toolCallsOf :: "PlatformMessage \<Rightarrow> PlatformToolCall list" where
  "toolCallsOf msg = (case m_toolCalls msg of None \<Rightarrow> [] | Some tcs \<Rightarrow> tcs)"

text \<open>An object literal \<open>{id, role, content, timestamp} as PlatformMessage\<close>.\<close>

definition newMessage :: "string \<Rightarrow> string \<Rightarrow> string \<Rightarrow> string option \<Rightarrow> PlatformMessage" where
  "newMessage i r c ts = \<lparr> m_id = i, m_role = r, m_content = Some c, m_timestamp = ts,
     m_name = None, m_toolCalls = None, m_toolCallId = None, m_metadata = None \<rparr>"

text \<open>\<open>String(event.timestamp ?? '')\<close>.\<close>

definition timestampOf :: "PlatformEvent \<Rightarrow> string" where
  "timestampOf e = (case e_timestamp e of None \<Rightarrow> [] | Some t \<Rightarrow> t)"

subsection \<open>Run and text message events\<close>

text \<open>
  The handlers call \<open>crypto.randomUUID()\<close> at most twice in one transition; \<open>rnd\<close> holds
  the values the first and the second call return. The callbacks (\<open>onEvent\<close>,
  \<open>onMessage\<close>, \<open>onError\<close>, \<open>onTraceId\<close>) and the run-active flag do not touch the
  conversation state and are left out.
\<close>

definition onRunStarted :: "PlatformEvent \<Rightarrow> AGUIClientState \<Rightarrow> AGUIClientState" where
  "onRunStarted e s = s\<lparr> threadId := Some (e_threadId e), runId := Some (e_runId e),
     status := Connected, error := None \<rparr>"

definition onRunFinished ::
  "string \<times> string \<Rightarrow> PlatformEvent \<Rightarrow> AGUIClientState \<Rightarrow> AGUIClientState" where
  "onRunFinished rnd e s =
     (let s1 = s\<lparr> status := StatusCompleted \<rparr>;
          s2 = (case currentMessage s1 of
                  None \<Rightarrow> s1
                | Some cm \<Rightarrow>
                    if cm_content cm = [] then s1
                    else s1\<lparr> messages := messages s1 @
                      [newMessage (or_else (cm_id cm) (fst rnd)) ''assistant'' (cm_content cm)
                         (Some (timestampOf e))] \<rparr>)
      in s2\<lparr> currentMessage := None \<rparr>)"

definition onRunError :: "PlatformEvent \<Rightarrow> AGUIClientState \<Rightarrow> AGUIClientState" where
  "onRunError e s = s\<lparr> status := StatusError, error := Some (e_message e) \<rparr>"

definition onTextMessageStart :: "PlatformEvent \<Rightarrow> AGUIClientState \<Rightarrow> AGUIClientState" where
  "onTextMessageStart e s = s\<lparr> currentMessage := Some
     \<lparr> cm_id = (if truthy (e_messageId e) then e_messageId e else None),
       cm_role = e_role e, cm_content = [], cm_timestamp = timestampOf e \<rparr> \<rparr>"

definition onTextMessageContent :: "PlatformEvent \<Rightarrow> AGUIClientState \<Rightarrow> AGUIClientState" where
  "onTextMessageContent e s =
     (case currentMessage s of
        None \<Rightarrow> s
      | Some cm \<Rightarrow> s\<lparr> currentMessage := Some (cm\<lparr> cm_content := cm_content cm @ e_delta e \<rparr>) \<rparr>)"

definition onTextMessageEnd ::
  "string \<times> string \<Rightarrow> string set \<Rightarrow> PlatformEvent \<Rightarrow> AGUIClientState \<Rightarrow> AGUIClientState" where
  "onTextMessageEnd rnd hidden e s =
     (case currentMessage s of
        None \<Rightarrow> s\<lparr> currentMessage := None \<rparr>
      | Some cm \<Rightarrow>
          if cm_content cm = [] then s\<lparr> currentMessage := None \<rparr>
          else let messageId = or_else (cm_id cm) (fst rnd) in
            if messageId \<in> hidden then s\<lparr> currentMessage := None \<rparr>
            else (case findIndex (\<lambda>m. m_id m = messageId) (messages s) of
                Some existingIndex \<Rightarrow>
                  (let existingMsg = messages s ! existingIndex in
                   if m_content existingMsg \<noteq> Some (cm_content cm)
                   then s\<lparr> messages := (messages s)
                          [existingIndex := existingMsg\<lparr> m_content := Some (cm_content cm) \<rparr>],
                        currentMessage := None \<rparr>
                   else s\<lparr> currentMessage := None \<rparr>)
              | None \<Rightarrow>
                  s\<lparr> messages := messages s @
                       [newMessage messageId (or_else (cm_role cm) ''assistant'') (cm_content cm)
                          (Some (timestampOf e))],
                     currentMessage := None \<rparr>))"

subsection \<open>Tool call events\<close>

definition onToolCallStart :: "PlatformEvent \<Rightarrow> AGUIClientState \<Rightarrow> AGUIClientState" where
  "onToolCallStart e s =
     (let parentToolId = e_parent_tool_call_id e;
          parentMessageId = e_parentMessageId e;
          effectiveParentToolId =
            (if \<not> truthy parentToolId \<and> truthy parentMessageId
             then (if map_of (pendingToolCalls s) (the parentMessageId) \<noteq> None
                   then parentMessageId
                   else if list_ex (hasToolCall (the parentMessageId)) (messages s)
                   then parentMessageId
                   else parentToolId)
             else parentToolId)
      in s\<lparr> pendingToolCalls := AList.update (e_toolCallId e)
               \<lparr> p_id = e_toolCallId e,
                 p_name = (if e_toolCallName e = [] then ''unknown_tool'' else e_toolCallName e),
                 p_args = [],
                 p_parentToolUseId = effectiveParentToolId,
                 p_parentMessageId = parentMessageId,
                 p_timestamp = timestampOf e \<rparr> (pendingToolCalls s),
             currentToolCall := Some
               \<lparr> ct_id = Some (e_toolCallId e), ct_name = Some (e_toolCallName e),
                 ct_args = [], ct_parentToolUseId = effectiveParentToolId \<rparr> \<rparr>)"

definition onToolCallArgs :: "PlatformEvent \<Rightarrow> AGUIClientState \<Rightarrow> AGUIClientState" where
  "onToolCallArgs e s =
     (let toolCallId = e_toolCallId e;
          s1 = (case map_of (pendingToolCalls s) toolCallId of
                  None \<Rightarrow> s
                | Some existing \<Rightarrow>
                    s\<lparr> pendingToolCalls := AList.update toolCallId
                         (existing\<lparr> p_args := p_args existing @ e_delta e \<rparr>)
                         (pendingToolCalls s) \<rparr>)
      in case currentToolCall s1 of
           None \<Rightarrow> s1
         | Some ct \<Rightarrow>
             if ct_id ct = Some toolCallId
             then s1\<lparr> currentToolCall := Some (ct\<lparr> ct_args := ct_args ct @ e_delta e \<rparr>) \<rparr>
             else s1)"

text \<open>\<open>if (newState.currentToolCall?.id === toolCallId) newState.currentToolCall = null\<close>.\<close>

definition clearCurrentToolCall :: "string \<Rightarrow> AGUIClientState \<Rightarrow> AGUIClientState" where
  "clearCurrentToolCall toolCallId s =
     (case currentToolCall s of
        None \<Rightarrow> s
      | Some ct \<Rightarrow> if ct_id ct = Some toolCallId then s\<lparr> currentToolCall := None \<rparr> else s)"

text \<open>The message that buffers a child, and the standalone message of a tool call.\<close>

definition toolMessage ::
  "string \<Rightarrow> string \<Rightarrow> PlatformToolCall \<Rightarrow> string option \<Rightarrow> PlatformMessage" where
  "toolMessage i toolCallId tc ts = \<lparr> m_id = i, m_role = ''tool'', m_content = Some [],
     m_timestamp = ts, m_name = None, m_toolCalls = Some [tc], m_toolCallId = Some toolCallId,
     m_metadata = None \<rparr>"

text \<open>
  TOOL_CALL_END. The id of the tool call that ends (the event's, else the current tool
  call's, else a random one), and which of the two random ids is left for the message.
\<close>

definition endedToolCallId :: "string \<times> string \<Rightarrow> PlatformEvent \<Rightarrow> AGUIClientState \<Rightarrow> string" where
  "endedToolCallId rnd e s =
     (if e_toolCallId e \<noteq> [] then e_toolCallId e
      else or_else (Option.bind (currentToolCall s) ct_id) (fst rnd))"

definition toolMessageUuid :: "string \<times> string \<Rightarrow> PlatformEvent \<Rightarrow> AGUIClientState \<Rightarrow> string" where
  "toolMessageUuid rnd e s =
     (if e_toolCallId e \<noteq> [] \<or> truthy (Option.bind (currentToolCall s) ct_id)
      then fst rnd else snd rnd)"

text \<open>\<open>completedToolCall\<close>: name, arguments and parent from the pending record, else from
  the current tool call.\<close>

definition completedToolCallOf :: "string \<Rightarrow> AGUIClientState \<Rightarrow> PlatformToolCall" where
  "completedToolCallOf toolCallId s =
     (let ct = currentToolCall s;
          pendingTool = map_of (pendingToolCalls s) toolCallId
      in \<lparr> tc_id = toolCallId,
           tc_name = or_else (js_or (map_option p_name pendingTool) (Option.bind ct ct_name))
                       ''unknown_tool'',
           tc_arguments = or_else (js_or (map_option p_args pendingTool) (map_option ct_args ct)) [],
           tc_result = None,
           tc_status = Some ToolCompleted,
           tc_parentToolUseId = js_or (Option.bind pendingTool p_parentToolUseId)
                                  (Option.bind ct ct_parentToolUseId) \<rparr>)"

text \<open>The parent is still pending: the child is buffered under the parent's id.\<close>

definition bufferChild :: "string \<Rightarrow> PlatformMessage \<Rightarrow> AGUIClientState \<Rightarrow> AGUIClientState" where
  "bufferChild parent child s =
     s\<lparr> pendingChildren := AList.update parent
          ((case map_of (pendingChildren s) parent of None \<Rightarrow> [] | Some c \<Rightarrow> c) @ [child])
          (pendingChildren s) \<rparr>"

text \<open>The parent tool call is committed on message \<open>i\<close>: the child is appended there.\<close>

definition appendToParent :: "nat \<Rightarrow> PlatformToolCall \<Rightarrow> AGUIClientState \<Rightarrow> AGUIClientState" where
  "appendToParent i completedToolCall s =
     (let msgs = messages s
      in s\<lparr> messages :=
             (if hasToolCall (tc_id completedToolCall) (msgs ! i) then msgs
              else msgs[i := (msgs ! i)\<lparr> m_toolCalls :=
                     Some (toolCallsOf (msgs ! i) @ [completedToolCall]) \<rparr>]) \<rparr>)"

text \<open>
  Otherwise the tool call goes to the message with the id \<open>parentMessageId\<close>, or without
  one to the last assistant message, together with the children buffered for it; when no
  such message exists it becomes a standalone tool message.
\<close>

definition attachToMessage ::
  "string \<Rightarrow> string option \<Rightarrow> string \<Rightarrow> PlatformToolCall \<Rightarrow> AGUIClientState \<Rightarrow> AGUIClientState" where
  "attachToMessage uuid parentMessageId ts completedToolCall s =
     (let msgs = messages s; toolCallId = tc_id completedToolCall
      in case findLastIndex
                (\<lambda>m. if truthy parentMessageId then m_id m = the parentMessageId
                     else m_role m = ''assistant'') msgs of
           Some i \<Rightarrow>
             (let existingToolCalls = toolCallsOf (msgs ! i) in
              if list_ex (\<lambda>tc. tc_id tc = toolCallId) existingToolCalls
              then s\<lparr> messages := msgs, currentToolCall := None \<rparr>
              else
                let pendingForThisTool =
                      (case map_of (pendingChildren s) toolCallId of None \<Rightarrow> [] | Some c \<Rightarrow> c);
                    childToolCalls = concat (map toolCallsOf pendingForThisTool)
                in s\<lparr> messages := msgs[i := (msgs ! i)\<lparr> m_toolCalls :=
                            Some (existingToolCalls @ [completedToolCall] @ childToolCalls) \<rparr>],
                       pendingChildren :=
                         (if pendingForThisTool \<noteq> []
                          then AList.delete toolCallId (pendingChildren s)
                          else pendingChildren s),
                       currentToolCall := None \<rparr>)
         | None \<Rightarrow>
             s\<lparr> messages := msgs @ [toolMessage uuid toolCallId completedToolCall (Some ts)],
                 currentToolCall := None \<rparr>)"

definition onToolCallEnd ::
  "string \<times> string \<Rightarrow> PlatformEvent \<Rightarrow> AGUIClientState \<Rightarrow> AGUIClientState" where
  "onToolCallEnd rnd e s =
     (let toolCallId = endedToolCallId rnd e s;
          uuid = toolMessageUuid rnd e s;
          completedToolCall = completedToolCallOf toolCallId s;
          parentToolUseId = tc_parentToolUseId completedToolCall;
          parentMessageId = Option.bind (map_of (pendingToolCalls s) toolCallId) p_parentMessageId;
          toolAlreadyExists = list_ex (hasToolCall toolCallId) (messages s);
          s1 = s\<lparr> pendingToolCalls := AList.delete toolCallId (pendingToolCalls s) \<rparr>
      in if toolAlreadyExists then clearCurrentToolCall toolCallId s1
         else if truthy parentToolUseId
         then
           (if map_of (pendingToolCalls s1) (the parentToolUseId) \<noteq> None
            then clearCurrentToolCall toolCallId
                   (bufferChild (the parentToolUseId)
                      (toolMessage uuid toolCallId completedToolCall None) s1)
            else
              (case findLastIndex (hasToolCall (the parentToolUseId)) (messages s1) of
                 Some i \<Rightarrow> clearCurrentToolCall toolCallId (appendToParent i completedToolCall s1)
               | None \<Rightarrow>
                   attachToMessage uuid parentMessageId (timestampOf e) completedToolCall s1))
         else attachToMessage uuid parentMessageId (timestampOf e) completedToolCall s1)"

text \<open>
  \<open>updatedToolCalls[tcIdx] = {...updatedToolCalls[tcIdx], result, status: 'completed'}\<close>
  at the first tool call with the id.
\<close>

definition attachResult ::
  "string \<Rightarrow> string \<Rightarrow> PlatformToolCall list \<Rightarrow> PlatformToolCall list" where
  "attachResult toolCallId resultContent tcs =
     (case findIndex (\<lambda>tc. tc_id tc = toolCallId) tcs of
        None \<Rightarrow> tcs
      | Some tcIdx \<Rightarrow> tcs[tcIdx := (tcs ! tcIdx)\<lparr> tc_result := Some resultContent,
                                                 tc_status := Some ToolCompleted \<rparr>])"

text \<open>
  The search through \<open>pendingChildren\<close>, in the order of the map: the first parent with a
  child that holds the tool call, and its children with the result attached.
\<close>

fun resultInChildren ::
  "string \<Rightarrow> string \<Rightarrow> (string \<times> PlatformMessage list) list \<Rightarrow>
     (string \<times> PlatformMessage list) option" where
  "resultInChildren toolCallId resultContent [] = None"
| "resultInChildren toolCallId resultContent ((parentId, children) # rest) =
     (case findIndex (hasToolCall toolCallId) children of
        Some j \<Rightarrow> Some (parentId, children[j := (children ! j)\<lparr> m_toolCalls :=
                     Some (attachResult toolCallId resultContent (toolCallsOf (children ! j))) \<rparr>])
      | None \<Rightarrow> resultInChildren toolCallId resultContent rest)"

definition onToolCallResult :: "PlatformEvent \<Rightarrow> AGUIClientState \<Rightarrow> AGUIClientState" where
  "onToolCallResult e s =
     (let toolCallId = e_toolCallId e;
          resultContent = e_content e;
          msgs = messages s
      in if toolCallId = [] then s
         else
          (case findLastIndex (hasToolCall toolCallId) msgs of
             Some i \<Rightarrow>
               s\<lparr> messages := msgs[i := (msgs ! i)\<lparr> m_toolCalls :=
                      Some (attachResult toolCallId resultContent (toolCallsOf (msgs ! i))) \<rparr>] \<rparr>
           | None \<Rightarrow>
               (case resultInChildren toolCallId resultContent (pendingChildren s) of
                  Some (parentId, updatedChildren) \<Rightarrow>
                    s\<lparr> pendingChildren :=
                         AList.update parentId updatedChildren (pendingChildren s) \<rparr>
                | None \<Rightarrow> s)))"

subsection \<open>State, activity, step and meta events\<close>

definition onStateSnapshot :: "PlatformEvent \<Rightarrow> AGUIClientState \<Rightarrow> AGUIClientState" where
  "onStateSnapshot e s = s\<lparr> state := e_snapshot e \<rparr>"

definition applyStatePatch :: "StatePatch \<Rightarrow> (string \<times> jvalue) list \<Rightarrow> (string \<times> jvalue) list" where
  "applyStatePatch patch stateClone =
     (let key = (case sp_path patch of c # rest \<Rightarrow> if c = CHR ''/'' then rest else c # rest
                 | [] \<Rightarrow> [])
      in if sp_op patch = ''add'' \<or> sp_op patch = ''replace''
         then AList.update key (sp_value patch) stateClone
         else if sp_op patch = ''remove'' then AList.delete key stateClone
         else stateClone)"

definition onStateDelta :: "PlatformEvent \<Rightarrow> AGUIClientState \<Rightarrow> AGUIClientState" where
  "onStateDelta e s = s\<lparr> state := fold applyStatePatch (e_stateDelta e) (state s) \<rparr>"

definition onActivitySnapshot :: "PlatformEvent \<Rightarrow> AGUIClientState \<Rightarrow> AGUIClientState" where
  "onActivitySnapshot e s =
     (case e_activities e of None \<Rightarrow> s | Some acts \<Rightarrow> s\<lparr> activities := acts \<rparr>)"

definition applyActivityPatch ::
  "PlatformActivityPatch \<Rightarrow> PlatformActivity list \<Rightarrow> PlatformActivity list" where
  "applyActivityPatch patch activitiesClone =
     (if ap_op patch = ''add'' then activitiesClone @ [ap_activity patch]
      else if ap_op patch = ''update'' then
        (case findIndex (\<lambda>a. a_id a = a_id (ap_activity patch)) activitiesClone of
           Some idx \<Rightarrow> activitiesClone[idx := ap_activity patch]
         | None \<Rightarrow> activitiesClone)
      else if ap_op patch = ''remove'' then
        (case findIndex (\<lambda>a. a_id a = a_id (ap_activity patch)) activitiesClone of
           Some idx \<Rightarrow> take idx activitiesClone @ drop (Suc idx) activitiesClone
         | None \<Rightarrow> activitiesClone)
      else activitiesClone)"

definition onActivityDelta :: "PlatformEvent \<Rightarrow> AGUIClientState \<Rightarrow> AGUIClientState" where
  "onActivityDelta e s =
     (case e_activityDelta e of
        None \<Rightarrow> s
      | Some patches \<Rightarrow> s\<lparr> activities := fold applyActivityPatch patches (activities s) \<rparr>)"

definition onStepStarted :: "PlatformEvent \<Rightarrow> AGUIClientState \<Rightarrow> AGUIClientState" where
  "onStepStarted e s = s\<lparr> state := AList.update ''currentStep''
     (JObj [(''id'', JStr (e_stepName e)), (''name'', JStr (e_stepName e)),
            (''status'', JStr ''running'')]) (state s) \<rparr>"

definition onStepFinished :: "AGUIClientState \<Rightarrow> AGUIClientState" where
  "onStepFinished s = s\<lparr> state := AList.delete ''currentStep'' (state s) \<rparr>"

definition onMeta :: "PlatformEvent \<Rightarrow> AGUIClientState \<Rightarrow> AGUIClientState" where
  "onMeta e s =
     (if truthy (e_payloadMessageId e) \<and>
         (e_metaType e = ''thumbs_up'' \<or> e_metaType e = ''thumbs_down'')
      then s\<lparr> messageFeedback :=
             AList.update (the (e_payloadMessageId e)) (e_metaType e) (messageFeedback s) \<rparr>
      else s)"

subsection \<open>RAW events\<close>

text \<open>
  The RAW handler is the only one that writes the set of hidden message ids, so the
  reducer returns the set with the state.
\<close>

definition onRaw ::
  "string \<times> string \<Rightarrow> PlatformEvent \<Rightarrow> AGUIClientState \<times> string set \<Rightarrow>
     AGUIClientState \<times> string set" where
  "onRaw rnd e sh =
     (let s = fst sh; hidden = snd sh;
          rawData = (case e_event e of Some d \<Rightarrow> Some d | None \<Rightarrow> e_data e)
      in case rawData of
           None \<Rightarrow> (s, hidden)
         | Some d \<Rightarrow>
             if r_type d = Some ''message_metadata'' \<and> r_hidden d then
               (if truthy (r_messageId d)
                then (s\<lparr> messages := filter (\<lambda>m. m_id m \<noteq> the (r_messageId d)) (messages s) \<rparr>,
                      insert (the (r_messageId d)) hidden)
                else (s, hidden))
             else if r_type d = Some ''langfuse_trace'' \<and> truthy (r_traceId d) then (s, hidden)
             else if r_type d = Some ''thinking_block'' then
               (s\<lparr> messages := messages s @
                    [(newMessage (fst rnd) ''assistant'' (or_else (r_thinking d) [])
                        (Some (timestampOf e)))
                     \<lparr> m_metadata := Some (r_thinking d, r_signature d) \<rparr>] \<rparr>, hidden)
             else if r_role d = Some ''user'' \<and> truthy (r_content d) then
               (let messageId = or_else (r_id d) (fst rnd) in
                if \<not> list_ex (\<lambda>m. m_id m = messageId) (messages s) \<and> messageId \<notin> hidden
                then (s\<lparr> messages := messages s @
                        [newMessage messageId ''user'' (the (r_content d))
                           (Some (timestampOf e))] \<rparr>, hidden)
                else (s, hidden))
             else if truthy (r_role d) \<and> truthy (r_content d) then
               (s\<lparr> messages := messages s @
                    [newMessage (or_else (r_id d) (fst rnd)) (the (r_role d)) (the (r_content d))
                       (Some (timestampOf e))] \<rparr>, hidden)
             else (s, hidden))"

subsection \<open>normalizeSnapshotMessages\<close>

text \<open>Step 1: the ids of the tool calls of the assistant messages.\<close>

definition parentToolCallIdsOf :: "PlatformMessage list \<Rightarrow> string list" where
  "parentToolCallIdsOf ms =
     concat (map (\<lambda>m. if m_role m = ''assistant''
                        then filter (\<lambda>i. i \<noteq> []) (map tc_id (toolCallsOf m)) else []) ms)"

text \<open>Step 2: for each parent id, the index of the last tool message that is its result.\<close>

definition parentResultIndexOf :: "string list \<Rightarrow> PlatformMessage list \<Rightarrow> (string \<times> nat) list" where
  "parentResultIndexOf parentIds ms =
     fold (\<lambda>(i, m) acc.
             if m_role m = ''tool'' \<and> truthy (m_toolCallId m) \<and> the (m_toolCallId m) \<in> set parentIds
             then AList.update (the (m_toolCallId m)) i acc else acc)
       (enumerate 0 ms) []"

text \<open>The parent whose result message is the nearest one after index \<open>i\<close>.\<close>

definition bestParentFor :: "nat \<Rightarrow> (string \<times> nat) list \<Rightarrow> (string \<times> nat) option" where
  "bestParentFor i pri =
     fold (\<lambda>(parentId, resultIdx) best.
             if resultIdx > i \<and> (case best of None \<Rightarrow> True | Some (_, b) \<Rightarrow> resultIdx < b)
             then Some (parentId, resultIdx) else best)
       pri None"

definition ownsToolCall :: "string \<Rightarrow> PlatformMessage \<Rightarrow> bool" where
  "ownsToolCall t a = (m_role a = ''assistant'' \<and> hasToolCall t a)"

definition setParentResult ::
  "string \<Rightarrow> string \<Rightarrow> PlatformToolCall list \<Rightarrow> PlatformToolCall list" where
  "setParentResult parentId content tcs =
     (case findIndex (\<lambda>tc. tc_id tc = parentId) tcs of
        None \<Rightarrow> tcs
      | Some k \<Rightarrow> tcs[k := (tcs ! k)\<lparr> tc_result := Some content,
           tc_status := (case tc_status (tcs ! k) of None \<Rightarrow> Some ToolCompleted | Some st \<Rightarrow> Some st) \<rparr>])"

definition childToolCall :: "PlatformMessage \<Rightarrow> string \<Rightarrow> PlatformToolCall" where
  "childToolCall msg bestParentId = \<lparr> tc_id = the (m_toolCallId msg),
     tc_name = or_else (m_name msg) ''tool'', tc_arguments = [],
     tc_result = Some (or_else (m_content msg) []), tc_status = Some ToolCompleted,
     tc_parentToolUseId = Some bestParentId \<rparr>"

text \<open>
  Step 3, one round of the loop over the indices: the messages with the tool calls written
  so far, and the indices to remove.
\<close>

definition normalizeStep ::
  "string list \<Rightarrow> (string \<times> nat) list \<Rightarrow> nat \<Rightarrow> PlatformMessage list \<times> nat set \<Rightarrow>
     PlatformMessage list \<times> nat set" where
  "normalizeStep parentIds pri i acc =
     (let ms = fst acc; indicesToRemove = snd acc; msg = ms ! i
      in if m_role msg \<noteq> ''tool'' \<or> \<not> truthy (m_toolCallId msg) then acc
         else
          let toolCallId = the (m_toolCallId msg) in
          if toolCallId \<in> set parentIds then
            (case findIndex (ownsToolCall toolCallId) ms of
               None \<Rightarrow> acc
             | Some k \<Rightarrow>
                 (ms[k := (ms ! k)\<lparr> m_toolCalls := Some (setParentResult toolCallId
                            (or_else (m_content msg) []) (toolCallsOf (ms ! k))) \<rparr>],
                  insert i indicesToRemove))
          else
            (case bestParentFor i pri of
               None \<Rightarrow> acc
             | Some (bestParentId, bestParentResultIdx) \<Rightarrow>
                 if bestParentId = [] then acc
                 else if \<not> list_ex (ownsToolCall bestParentId) (take i ms) then acc
                 else
                  (case findIndex (ownsToolCall bestParentId) ms of
                     None \<Rightarrow> acc
                   | Some k \<Rightarrow>
                       ((if hasToolCall toolCallId (ms ! k) then ms
                         else ms[k := (ms ! k)\<lparr> m_toolCalls :=
                                Some (toolCallsOf (ms ! k) @ [childToolCall msg bestParentId]) \<rparr>]),
                        insert i indicesToRemove))))"

definition normalizeSnapshotMessages :: "PlatformMessage list \<Rightarrow> PlatformMessage list" where
  "normalizeSnapshotMessages snapshotMessages =
     (let parentIds = parentToolCallIdsOf snapshotMessages
      in if parentIds = [] then snapshotMessages
         else
          let pri = parentResultIndexOf parentIds snapshotMessages;
              r = fold (normalizeStep parentIds pri) [0 ..< length snapshotMessages]
                    (snapshotMessages, {})
          in map snd (filter (\<lambda>(idx, m). idx \<notin> snd r) (enumerate 0 (fst r))))"

subsection \<open>MESSAGES_SNAPSHOT\<close>

text \<open>\<open>snapshotMap.get(id)\<close>: the map is built from the list, so a later message wins.\<close>

definition snapshotVersionOf :: "PlatformMessage list \<Rightarrow> string \<Rightarrow> PlatformMessage option" where
  "snapshotVersionOf normalizedMessages i = find (\<lambda>m. m_id m = i) (rev normalizedMessages)"

definition preferExisting :: "PlatformToolCall \<Rightarrow> PlatformToolCall \<Rightarrow> PlatformToolCall" where
  "preferExisting existingTC snapshotTC =
     (let t1 = (if tc_name existingTC \<noteq> [] \<and> tc_name existingTC \<noteq> ''tool'' \<and>
                   (tc_name snapshotTC = [] \<or> tc_name snapshotTC = ''tool'')
                then snapshotTC\<lparr> tc_name := tc_name existingTC \<rparr> else snapshotTC);
          t2 = (if tc_arguments existingTC \<noteq> [] \<and> tc_arguments t1 = []
                then t1\<lparr> tc_arguments := tc_arguments existingTC \<rparr> else t1)
      in if truthy (tc_parentToolUseId existingTC) \<and> \<not> truthy (tc_parentToolUseId t2)
         then t2\<lparr> tc_parentToolUseId := tc_parentToolUseId existingTC \<rparr> else t2)"

definition mergeToolCall :: "PlatformToolCall \<Rightarrow> PlatformToolCall list \<Rightarrow> PlatformToolCall list" where
  "mergeToolCall existingTC mergedToolCalls =
     (case findIndex (\<lambda>tc. tc_id tc = tc_id existingTC) mergedToolCalls of
        Some k \<Rightarrow> mergedToolCalls[k := preferExisting existingTC (mergedToolCalls ! k)]
      | None \<Rightarrow> mergedToolCalls @ [existingTC])"

text \<open>
  The merge of one message of the state with its snapshot version. The source rewrites
  the snapshot's tool call objects in place; two messages of the state with the same id
  share them, and the model, which merges each message with the snapshot version as it
  arrived, gives the same result whenever the ids of the state's messages are distinct
  (otherwise the name, arguments and parentToolUseId of such a shared tool call can
  differ, nothing else).
\<close>

definition mergeMessage :: "PlatformMessage list \<Rightarrow> PlatformMessage \<Rightarrow> PlatformMessage" where
  "mergeMessage normalizedMessages msg =
     (case snapshotVersionOf normalizedMessages (m_id msg) of
        None \<Rightarrow> msg
      | Some snapshotVersion \<Rightarrow>
          if m_role msg = ''assistant'' \<and> toolCallsOf msg \<noteq> [] \<and> toolCallsOf snapshotVersion \<noteq> []
          then snapshotVersion\<lparr> m_toolCalls :=
                 Some (fold mergeToolCall (toolCallsOf msg) (toolCallsOf snapshotVersion)) \<rparr>
          else snapshotVersion)"

text \<open>The loop that inserts the snapshot's new messages.\<close>

fun insertNew ::
  "PlatformMessage list \<Rightarrow> string set \<Rightarrow> PlatformMessage list \<Rightarrow> PlatformMessage list" where
  "insertNew [] existingIds merged = merged"
| "insertNew (msg # rest) existingIds merged =
     (if m_id msg \<in> existingIds then insertNew rest existingIds merged
      else
        let insertBeforeId = map_option m_id (find (\<lambda>m. m_id m \<in> existingIds) rest);
            merged' =
              (if truthy insertBeforeId
               then (case findIndex (\<lambda>m. m_id m = the insertBeforeId) merged of
                       Some idx \<Rightarrow> take idx merged @ msg # drop idx merged
                     | None \<Rightarrow> merged @ [msg])
               else merged @ [msg])
        in insertNew rest (insert (m_id msg) existingIds) merged')"

definition isGenericName :: "string \<Rightarrow> bool" where
  "isGenericName n = (n = [] \<or> n = ''tool'' \<or> n = ''unknown_tool'')"

definition toolNameMapOf ::
  "PlatformMessage list \<Rightarrow> (string \<times> PendingToolCall) list \<Rightarrow> (string \<times> string) list" where
  "toolNameMapOf merged pending =
     fold (\<lambda>(i, p) acc. if \<not> isGenericName (p_name p) then AList.update i (p_name p) acc else acc)
       pending
       (fold (\<lambda>tc acc. if tc_id tc \<noteq> [] \<and> \<not> isGenericName (tc_name tc)
                        then AList.update (tc_id tc) (tc_name tc) acc else acc)
          (concat (map (\<lambda>m. if m_role m = ''tool'' then toolCallsOf m else []) merged)) [])"

definition recoverName :: "(string \<times> string) list \<Rightarrow> PlatformToolCall \<Rightarrow> PlatformToolCall" where
  "recoverName toolNameMap tc =
     (case map_of toolNameMap (tc_id tc) of
        Some n \<Rightarrow> if isGenericName (tc_name tc) then tc\<lparr> tc_name := n \<rparr> else tc
      | None \<Rightarrow> tc)"

definition recoverNames :: "(string \<times> string) list \<Rightarrow> PlatformMessage \<Rightarrow> PlatformMessage" where
  "recoverNames toolNameMap msg =
     (if m_role msg = ''assistant''
      then (case m_toolCalls msg of
              None \<Rightarrow> msg
            | Some tcs \<Rightarrow> msg\<lparr> m_toolCalls := Some (map (recoverName toolNameMap) tcs) \<rparr>)
      else msg)"

definition nestedToolCallIdsOf :: "PlatformMessage list \<Rightarrow> string set" where
  "nestedToolCallIdsOf merged =
     set (concat (map (\<lambda>m. if m_role m = ''assistant'' then map tc_id (toolCallsOf m) else [])
            merged))"

definition keepMessage :: "string set \<Rightarrow> PlatformMessage \<Rightarrow> bool" where
  "keepMessage nestedToolCallIds msg =
     (if m_role msg \<noteq> ''tool'' then True
      else if truthy (m_toolCallId msg) \<and> the (m_toolCallId msg) \<in> nestedToolCallIds then False
      else if list_ex (\<lambda>tc. tc_id tc \<in> nestedToolCallIds) (toolCallsOf msg) then False
      else True)"

definition onMessagesSnapshot ::
  "string set \<Rightarrow> PlatformEvent \<Rightarrow> AGUIClientState \<Rightarrow> AGUIClientState" where
  "onMessagesSnapshot hidden e s =
     (let visibleMessages = filter (\<lambda>msg. m_id msg \<notin> hidden) (e_messages e);
          normalizedMessages = normalizeSnapshotMessages visibleMessages;
          existingIds = set (map m_id (messages s));
          merged = insertNew normalizedMessages existingIds
                     (map (mergeMessage normalizedMessages) (messages s));
          named = map (recoverNames (toolNameMapOf merged (pendingToolCalls s))) merged
      in s\<lparr> messages := filter (keepMessage (nestedToolCallIdsOf named)) named,
             pendingChildren := [] \<rparr>)"

text \<open>
  The parts of the snapshot handler on their own. \<open>spliceBefore\<close> is one round of the
  insertion loop: \<open>merged.splice(idx, 0, msg)\<close> at the first message with the id
  \<open>insertBeforeId\<close>, else \<open>merged.push(msg)\<close>. \<open>insertedSnapshot\<close> is the array
  \<open>merged\<close> when the insertion loop is done, for the normalized messages of the snapshot.
  \<open>cleanedUp\<close> is what follows the loop: the tool names are recovered and the tool messages
  that are nested in an assistant message are removed.
\<close>

definition spliceBefore ::
  "string option \<Rightarrow> PlatformMessage \<Rightarrow> PlatformMessage list \<Rightarrow> PlatformMessage list" where
  "spliceBefore insertBeforeId msg merged =
     (if truthy insertBeforeId
      then (case findIndex (\<lambda>m. m_id m = the insertBeforeId) merged of
              Some idx \<Rightarrow> take idx merged @ msg # drop idx merged
            | None \<Rightarrow> merged @ [msg])
      else merged @ [msg])"

definition insertedSnapshot :: "PlatformMessage list \<Rightarrow> AGUIClientState \<Rightarrow> PlatformMessage list" where
  "insertedSnapshot normalizedMessages s =
     insertNew normalizedMessages (set (map m_id (messages s)))
       (map (mergeMessage normalizedMessages) (messages s))"

definition cleanedUp ::
  "(string \<times> PendingToolCall) list \<Rightarrow> PlatformMessage list \<Rightarrow> PlatformMessage list" where
  "cleanedUp pending merged =
     (let named = map (recoverNames (toolNameMapOf merged pending)) merged
      in filter (keepMessage (nestedToolCallIdsOf named)) named)"

subsection \<open>processEvent and sendMessage\<close>

text \<open>
  The state updater of \<open>processEvent\<close>: the branches in the order of the source. It reads
  and writes the conversation state and the set of hidden message ids.
\<close>

definition processEvent ::
  "string \<times> string \<Rightarrow> PlatformEvent \<Rightarrow> AGUIClientState \<times> string set \<Rightarrow>
     AGUIClientState \<times> string set" where
  "processEvent rnd e sh =
     (let s = fst sh; hidden = snd sh; t = e_type e
      in if t = RUN_STARTED then (onRunStarted e s, hidden)
         else if t = RUN_FINISHED then (onRunFinished rnd e s, hidden)
         else if t = RUN_ERROR then (onRunError e s, hidden)
         else if t = TEXT_MESSAGE_START then (onTextMessageStart e s, hidden)
         else if t = TEXT_MESSAGE_CONTENT then (onTextMessageContent e s, hidden)
         else if t = TEXT_MESSAGE_END then (onTextMessageEnd rnd hidden e s, hidden)
         else if t = TOOL_CALL_START then (onToolCallStart e s, hidden)
         else if t = TOOL_CALL_ARGS then (onToolCallArgs e s, hidden)
         else if t = TOOL_CALL_END then (onToolCallEnd rnd e s, hidden)
         else if t = TOOL_CALL_RESULT then (onToolCallResult e s, hidden)
         else if t = STATE_SNAPSHOT then (onStateSnapshot e s, hidden)
         else if t = STATE_DELTA then (onStateDelta e s, hidden)
         else if t = MESSAGES_SNAPSHOT then (onMessagesSnapshot hidden e s, hidden)
         else if t = ACTIVITY_SNAPSHOT then (onActivitySnapshot e s, hidden)
         else if t = ACTIVITY_DELTA then (onActivityDelta e s, hidden)
         else if t = STEP_STARTED then (onStepStarted e s, hidden)
         else if t = STEP_FINISHED then (onStepFinished s, hidden)
         else if t = RAW then onRaw rnd e (s, hidden)
         else if t = META then (onMeta e s, hidden)
         else (s, hidden))"

text \<open>A run of events, each with the random ids its transition draws.\<close>

fun processEvents ::
  "((string \<times> string) \<times> PlatformEvent) list \<Rightarrow> AGUIClientState \<times> string set \<Rightarrow>
     AGUIClientState \<times> string set" where
  "processEvents [] sh = sh"
| "processEvents ((rnd, e) # es) sh = processEvents es (processEvent rnd e sh)"

text \<open>
  \<open>sendMessage\<close>, the update it makes before the request: the user message with the id
  \<open>crypto.randomUUID()\<close> returned and the timestamp \<open>new Date().toISOString()\<close>.
\<close>

definition sendMessage :: "string \<Rightarrow> string \<Rightarrow> string \<Rightarrow> AGUIClientState \<Rightarrow> AGUIClientState" where
  "sendMessage uuid now content s =
     s\<lparr> status := Connected, error := None,
        messages := messages s @ [newMessage uuid ''user'' content (Some now)] \<rparr>"

subsection \<open>Events and messages for examples\<close>

text \<open>An event object with the given type and no other field.\<close>

definition event :: "string \<Rightarrow> PlatformEvent" where
  "event t = \<lparr> e_type = t, e_threadId = [], e_runId = [], e_message = [], e_messageId = None,
     e_role = None, e_delta = [], e_timestamp = None, e_toolCallId = [], e_toolCallName = [],
     e_parentMessageId = None, e_parent_tool_call_id = None, e_content = [], e_snapshot = [],
     e_stateDelta = [], e_messages = [], e_activities = None, e_activityDelta = None,
     e_stepName = [], e_event = None, e_data = None, e_metaType = [],
     e_payloadMessageId = None \<rparr>"

definition toolCallStart :: "string \<Rightarrow> string \<Rightarrow> string option \<Rightarrow> PlatformEvent" where
  "toolCallStart i n parent = (event TOOL_CALL_START)\<lparr> e_toolCallId := i, e_toolCallName := n,
     e_parent_tool_call_id := parent \<rparr>"

definition toolCallEnd :: "string \<Rightarrow> PlatformEvent" where
  "toolCallEnd i = (event TOOL_CALL_END)\<lparr> e_toolCallId := i \<rparr>"

definition toolCallResult :: "string \<Rightarrow> string \<Rightarrow> PlatformEvent" where
  "toolCallResult i c = (event TOOL_CALL_RESULT)\<lparr> e_toolCallId := i, e_content := c \<rparr>"

definition textMessageEnd :: PlatformEvent where
  "textMessageEnd = event TEXT_MESSAGE_END"

definition textMessageStart :: "string \<Rightarrow> string \<Rightarrow> PlatformEvent" where
  "textMessageStart i r = (event TEXT_MESSAGE_START)\<lparr> e_messageId := Some i, e_role := Some r \<rparr>"

definition textMessageContent :: "string \<Rightarrow> PlatformEvent" where
  "textMessageContent d = (event TEXT_MESSAGE_CONTENT)\<lparr> e_delta := d \<rparr>"

definition messagesSnapshot :: "PlatformMessage list \<Rightarrow> PlatformEvent" where
  "messagesSnapshot ms = (event MESSAGES_SNAPSHOT)\<lparr> e_messages := ms \<rparr>"

text \<open>A message of a snapshot: id, role and content, and an assistant message with tool calls.\<close>

definition snapshotMessage :: "string \<Rightarrow> string \<Rightarrow> string \<Rightarrow> PlatformMessage" where
  "snapshotMessage i r c = newMessage i r c None"

definition assistantWithToolCalls :: "string \<Rightarrow> PlatformToolCall list \<Rightarrow> PlatformMessage" where
  "assistantWithToolCalls i tcs = (newMessage i ''assistant'' [] None)\<lparr> m_toolCalls := Some tcs \<rparr>"

definition snapshotToolCall :: "string \<Rightarrow> string \<Rightarrow> tool_status option \<Rightarrow> PlatformToolCall" where
  "snapshotToolCall i n st = \<lparr> tc_id = i, tc_name = n, tc_arguments = [], tc_result = None,
     tc_status = st, tc_parentToolUseId = None \<rparr>"

subsection \<open>Events of an unknown type\<close>

definition handledEventTypes :: "string set" where
  "handledEventTypes = {RUN_STARTED, RUN_FINISHED, RUN_ERROR, TEXT_MESSAGE_START,
     TEXT_MESSAGE_CONTENT, TEXT_MESSAGE_END, TOOL_CALL_START, TOOL_CALL_ARGS, TOOL_CALL_END,
     TOOL_CALL_RESULT, STATE_SNAPSHOT, STATE_DELTA, MESSAGES_SNAPSHOT, ACTIVITY_SNAPSHOT,
     ACTIVITY_DELTA, STEP_STARTED, STEP_FINISHED, RAW, META}"

lemmas event_defs = event_def toolCallStart_def toolCallEnd_def toolCallResult_def
  textMessageStart_def textMessageContent_def textMessageEnd_def messagesSnapshot_def
  snapshotMessage_def assistantWithToolCalls_def snapshotToolCall_def

lemmas js_defs = truthy_def js_or_def or_else_def hasToolCall_def toolCallsOf_def
  newMessage_def timestampOf_def toolMessage_def clearCurrentToolCall_def

lemmas toolCallEnd_defs = onToolCallEnd_def endedToolCallId_def toolMessageUuid_def
  completedToolCallOf_def bufferChild_def appendToParent_def attachToMessage_def

lemmas snapshot_defs = onMessagesSnapshot_def normalizeSnapshotMessages_def
  parentToolCallIdsOf_def parentResultIndexOf_def bestParentFor_def ownsToolCall_def
  setParentResult_def childToolCall_def normalizeStep_def snapshotVersionOf_def
  preferExisting_def mergeToolCall_def mergeMessage_def isGenericName_def toolNameMapOf_def
  recoverName_def recoverNames_def nestedToolCallIdsOf_def keepMessage_def

subsection \<open>Positions of messages\<close>

text \<open>
  \<open>positionedAfter a b ms\<close>: a message with the id \<open>a\<close> stands in \<open>ms\<close> at or after the
  first message with the id \<open>b\<close> (after it, when the ids differ).
\<close>

definition positionedAfter :: "string \<Rightarrow> string \<Rightarrow> PlatformMessage list \<Rightarrow> bool" where
  "positionedAfter a b ms = (a \<in> m_id ` set (dropWhile (\<lambda>m. m_id m \<noteq> b) ms))"

text \<open>
  What normalization may change of a message: nothing but the tool calls, and those of an
  assistant message only.
\<close>

definition sameButToolCalls :: "PlatformMessage \<Rightarrow> PlatformMessage \<Rightarrow> bool" where
  "sameButToolCalls a b =
     (m_id b = m_id a \<and> m_role b = m_role a \<and> (m_role a \<noteq> ''assistant'' \<longrightarrow> b = a))"

subsection \<open>The tool calls of a state\<close>

text \<open>
  The tool calls the state holds: those of the committed messages and those of the
  children buffered in \<open>pendingChildren\<close>. A status is terminal when it is \<open>completed\<close>
  or \<open>error\<close>.
\<close>

definition toolCallsIn :: "PlatformMessage list \<Rightarrow> PlatformToolCall list" where
  "toolCallsIn ms = concat (map toolCallsOf ms)"

definition allToolCalls :: "AGUIClientState \<Rightarrow> PlatformToolCall list" where
  "allToolCalls s = toolCallsIn (messages s) @ toolCallsIn (concat (map snd (pendingChildren s)))"

definition isTerminal :: "PlatformToolCall \<Rightarrow> bool" where
  "isTerminal tc = (tc_status tc = Some ToolCompleted \<or> tc_status tc = Some ToolError)"

text \<open>
  \<open>onlyCompletedAdded s s'\<close>: every tool call of \<open>s'\<close> is a tool call of \<open>s\<close>, unchanged,
  or has the status \<open>completed\<close>.
\<close>

definition onlyCompletedAdded :: "AGUIClientState \<Rightarrow> AGUIClientState \<Rightarrow> bool" where
  "onlyCompletedAdded s s' =
     (\<forall>tc \<in> set (allToolCalls s'). tc \<in> set (allToolCalls s) \<or> tc_status tc = Some ToolCompleted)"


subsection \<open>The entry of a sent message\<close>

text \<open>
  \<open>sentEntry u c ms\<close>: the list \<open>ms\<close> has exactly one message with the id \<open>u\<close>, a user
  message with the content \<open>c\<close>. \<open>notStreaming u s\<close>: the message being streamed, if any,
  does not have the id \<open>u\<close>.
\<close>

definition sentEntry :: "string \<Rightarrow> string \<Rightarrow> PlatformMessage list \<Rightarrow> bool" where
  "sentEntry u c ms =
     (case filter (\<lambda>m. m_id m = u) ms of
        [x] \<Rightarrow> m_role x = ''user'' \<and> m_content x = Some c
      | _ \<Rightarrow> False)"

definition notStreaming :: "string \<Rightarrow> AGUIClientState \<Rightarrow> bool" where
  "notStreaming u s = (case currentMessage s of None \<Rightarrow> True | Some cm \<Rightarrow> cm_id cm \<noteq> Some u)"

abbreviation sentKept :: "string \<Rightarrow> string \<Rightarrow> AGUIClientState \<Rightarrow> bool" where
  "sentKept u c s \<equiv> sentEntry u c (messages s) \<and> notStreaming u s"

text \<open>
  \<open>bringsId u rnd e\<close>: the transition of the event \<open>e\<close> brings the id \<open>u\<close>, as one of the
  ids \<open>crypto.randomUUID()\<close> returns, as the \<open>messageId\<close> of a streamed message, or as the
  \<open>messageId\<close> or \<open>id\<close> of a RAW payload. \<open>echoesSent u c e\<close>: the messages of a snapshot
  \<open>e\<close> that have the id \<open>u\<close> are user messages with the content \<open>c\<close>.
\<close>

definition rawBrings :: "string \<Rightarrow> RawData option \<Rightarrow> bool" where
  "rawBrings u d = (case d of None \<Rightarrow> False | Some r \<Rightarrow> r_messageId r = Some u \<or> r_id r = Some u)"

definition bringsId :: "string \<Rightarrow> string \<times> string \<Rightarrow> PlatformEvent \<Rightarrow> bool" where
  "bringsId u rnd e =
     (fst rnd = u \<or> snd rnd = u \<or> e_messageId e = Some u
      \<or> rawBrings u (e_event e) \<or> rawBrings u (e_data e))"

definition echoesSent :: "string \<Rightarrow> string \<Rightarrow> PlatformEvent \<Rightarrow> bool" where
  "echoesSent u c e =
     list_all (\<lambda>x. m_id x = u \<longrightarrow> m_role x = ''user'' \<and> m_content x = Some c) (e_messages e)"

text \<open>The RAW event that marks the message with the id \<open>i\<close> as hidden.\<close>

definition rawHidden :: "string \<Rightarrow> PlatformEvent" where
  "rawHidden i = (event RAW)\<lparr> e_event := Some \<lparr> r_type = Some ''message_metadata'',
     r_hidden = True, r_messageId = Some i, r_traceId = None, r_thinking = None,
     r_signature = None, r_role = None, r_content = None, r_id = None \<rparr> \<rparr>"

section \<open>Properties\<close>

subsection \<open>Reconnect backoff\<close>

lemma channel_step_attempts:
  assumes "a \<noteq> Open" and "channel_step a ch = (ch', r)"
  shows "reconnectAttemptsRef ch' = reconnectAttemptsRef ch + (if r = None then 0 else 1)"
    and "r = None \<or> r = Some (min (1000 * 2 ^ reconnectAttemptsRef ch) 30000)"
  using assms
  by (cases a; auto simp: connect_def onerror_def timerFired_def disconnect_def unmount_def
        Let_def BASE_RECONNECT_DELAY_def MAX_RECONNECT_DELAY_def split: if_splits)+

lemma scheduled_delays_from:
  assumes "Open \<notin> set as"
  shows "scheduled_delays as ch =
     map (\<lambda>k. min (1000 * 2 ^ (reconnectAttemptsRef ch + k)) 30000)
       [0 ..< length (scheduled_delays as ch)]"
  using assms
proof (induction as arbitrary: ch)
  case Nil
  show ?case by simp
next
  case (Cons a as)
  obtain ch' r where step: "channel_step a ch = (ch', r)"
    by (cases "channel_step a ch") auto
  from Cons.prems have a: "a \<noteq> Open" and as: "Open \<notin> set as" by auto
  note IH = Cons.IH [OF as, of ch']
  show ?case
  proof (cases r)
    case None
    with channel_step_attempts(1) [OF a step]
    have "reconnectAttemptsRef ch' = reconnectAttemptsRef ch" by simp
    with IH step None show ?thesis by simp
  next
    case (Some d)
    with channel_step_attempts [OF a step]
    have att: "reconnectAttemptsRef ch' = Suc (reconnectAttemptsRef ch)"
      and d: "d = min (1000 * 2 ^ reconnectAttemptsRef ch) 30000" by auto
    let ?n = "length (scheduled_delays as ch')"
    have "scheduled_delays (a # as) ch = d # scheduled_delays as ch'"
      using step Some by simp
    also have "scheduled_delays as ch' =
        map (\<lambda>k. min (1000 * 2 ^ (reconnectAttemptsRef ch + Suc k)) 30000) [0 ..< ?n]"
      using IH att by simp
    also have "d # \<dots> =
        map (\<lambda>k. min (1000 * 2 ^ (reconnectAttemptsRef ch + k)) 30000) [0 ..< Suc ?n]"
      unfolding d by (simp add: upt_conv_Cons map_Suc_upt [symmetric] del: upt_Suc)
    finally show ?thesis using step Some by simp
  qed
qed

text \<open>
  C5. After a successful open (or at mount) the attempt counter is zero. Whatever the
  channel does next without another successful open, the n-th reconnect it schedules has
  the delay \<open>min (1000 * 2 ^ (n - 1)) 30000\<close> ms: three transport errors in a row, each on
  the connection the timer reopened, schedule 1000, 2000 and 4000 ms; and a successful
  open sets the counter back to zero, so that the next error schedules 1000 ms again.
\<close>

theorem C5_reconnect_backoff:
  assumes "reconnectAttemptsRef ch = 0" and "Open \<notin> set as"
    and "1 \<le> n" and "n \<le> length (scheduled_delays as ch)"
  shows "scheduled_delays as ch ! (n - 1) = min (1000 * 2 ^ (n - 1)) 30000
    \<and> reconnectAttemptsRef (onopen (run_channel as ch)) = 0
    \<and> (mountedRef c \<and> eventSourceRef c = Some es \<longrightarrow>
          snd (onerror es c) = Some (min (1000 * 2 ^ reconnectAttemptsRef c) 30000)
        \<and> reconnectAttemptsRef (fst (onerror es c)) = reconnectAttemptsRef c + 1
        \<and> snd (onerror es (onopen c)) = Some 1000)"
proof -
  have lt: "n - 1 < length (scheduled_delays as ch)"
    using assms(3,4) by arith
  have "scheduled_delays as ch ! (n - 1) =
      map (\<lambda>k. min (1000 * 2 ^ (reconnectAttemptsRef ch + k)) 30000)
        [0 ..< length (scheduled_delays as ch)] ! (n - 1)"
    using scheduled_delays_from [OF assms(2), of ch] by simp
  also have "\<dots> = min (1000 * 2 ^ (n - 1)) 30000"
    using assms(1) lt by (simp del: upt_Suc)
  finally have nth: "scheduled_delays as ch ! (n - 1) = min (1000 * 2 ^ (n - 1)) 30000" .
  have reset: "reconnectAttemptsRef (onopen (run_channel as ch)) = 0"
    by (simp add: onopen_def)
  have err: "mountedRef c \<and> eventSourceRef c = Some es \<longrightarrow>
          snd (onerror es c) = Some (min (1000 * 2 ^ reconnectAttemptsRef c) 30000)
        \<and> reconnectAttemptsRef (fst (onerror es c)) = reconnectAttemptsRef c + 1
        \<and> snd (onerror es (onopen c)) = Some 1000"
    by (simp add: onopen_def onerror_def Let_def
        BASE_RECONNECT_DELAY_def MAX_RECONNECT_DELAY_def)
  from nth reset err show ?thesis by blast
qed

theorem C5_three_errors_witness:
  "scheduled_delays [TransportError 0, TimerFired, TransportError 1, TimerFired,
      TransportError 2] (connect initialChannel) = [1000, 2000, 4000]
   \<and> scheduled_delays [TransportError 0, TimerFired, TransportError 1, TimerFired,
      TransportError 2] (connect initialChannel) ! (3 - 1) = min (1000 * 2 ^ (3 - 1)) 30000
   \<and> snd (onerror 0 (onopen (connect initialChannel))) = Some 1000"
proof -
  let ?as = "[TransportError 0, TimerFired, TransportError 1, TimerFired, TransportError 2]"
  let ?ch = "connect initialChannel"
  have ds: "scheduled_delays ?as ?ch = [1000, 2000, 4000]"
    by (simp add: connect_def initialChannel_def onerror_def timerFired_def Let_def
        BASE_RECONNECT_DELAY_def MAX_RECONNECT_DELAY_def)
  have h1: "reconnectAttemptsRef ?ch = 0"
    by (simp add: connect_def initialChannel_def)
  have h2: "Open \<notin> set ?as" by simp
  have h3: "(1::nat) \<le> 3" by simp
  have h4: "3 \<le> length (scheduled_delays ?as ?ch)" using ds by simp
  have h5: "mountedRef ?ch \<and> eventSourceRef ?ch = Some 0"
    by (simp add: connect_def initialChannel_def)
  from C5_reconnect_backoff [OF h1 h2 h3 h4, of ?ch 0] h5 ds
  show ?thesis by simp
qed

subsection \<open>Unknown events and empty text messages\<close>

text \<open>
  C8. An event whose type is none of the types the reducer handles reaches the last
  \<open>return newState\<close>: the state the reducer returns equals the previous state, so every
  field of it (messages, activities, state, pendingToolCalls, pendingChildren,
  currentMessage, messageFeedback, status, error and the others) is unchanged, and so is the
  set of hidden message ids.
\<close>

theorem C8_unknown_event_preserves_state:
  assumes "e_type e \<notin> handledEventTypes"
  shows "processEvent rnd e (s, hidden) = (s, hidden)"
  using assms by (simp add: processEvent_def handledEventTypes_def)

theorem C8_unknown_event_witness:
  "event ''CUSTOM'' \<lparr> e_messages := [snapshotMessage ''m1'' ''user'' ''hi''] \<rparr>
     \<noteq> event MESSAGES_SNAPSHOT \<lparr> e_messages := [snapshotMessage ''m1'' ''user'' ''hi''] \<rparr>
   \<and> processEvent (''u1'', ''u2'')
        (event ''CUSTOM'' \<lparr> e_messages := [snapshotMessage ''m1'' ''user'' ''hi''] \<rparr>)
        (initialState, {}) = (initialState, {})"
proof -
  have h: "e_type (event ''CUSTOM'' \<lparr> e_messages := [snapshotMessage ''m1'' ''user'' ''hi''] \<rparr>)
      \<notin> handledEventTypes"
    by (simp add: event_def handledEventTypes_def EventType_defs)
  have d: "event ''CUSTOM'' \<lparr> e_messages := [snapshotMessage ''m1'' ''user'' ''hi''] \<rparr>
     \<noteq> event MESSAGES_SNAPSHOT \<lparr> e_messages := [snapshotMessage ''m1'' ''user'' ''hi''] \<rparr>"
    by (simp add: event_def EventType_defs)
  from C8_unknown_event_preserves_state [OF h, of "(''u1'', ''u2'')" initialState "{}"] d
  show ?thesis by simp
qed

text \<open>
  C9. When no text message is open, or the open one has accumulated no content, a
  text-end event commits nothing: the result is the previous state with \<open>currentMessage\<close>
  set to null, whatever the hidden set and the ids of the messages are (neither check is
  reached), so \<open>messages\<close> is unchanged.
\<close>

theorem C9_text_end_without_content:
  assumes "e_type e = TEXT_MESSAGE_END"
    and "currentMessage s = None \<or> (\<exists>cm. currentMessage s = Some cm \<and> cm_content cm = [])"
  shows "processEvent rnd e (s, hidden) = (s\<lparr> currentMessage := None \<rparr>, hidden)
    \<and> messages (fst (processEvent rnd e (s, hidden))) = messages s
    \<and> currentMessage (fst (processEvent rnd e (s, hidden))) = None"
  using assms
  by (auto simp: processEvent_def onTextMessageEnd_def EventType_defs)

theorem C9_text_end_without_content_witness:
  "processEvent (''u1'', ''u2'') textMessageEnd
     (initialState \<lparr> messages := [snapshotMessage ''m1'' ''assistant'' ''old''],
        currentMessage := Some \<lparr> cm_id = Some ''m1'', cm_role = Some ''assistant'',
          cm_content = [], cm_timestamp = [] \<rparr> \<rparr>, {''m1''})
   = (initialState \<lparr> messages := [snapshotMessage ''m1'' ''assistant'' ''old''] \<rparr>, {''m1''})"
proof -
  let ?cm = "\<lparr> cm_id = Some ''m1'', cm_role = Some ''assistant'', cm_content = [],
    cm_timestamp = [] \<rparr>"
  let ?s = "initialState \<lparr> messages := [snapshotMessage ''m1'' ''assistant'' ''old''],
        currentMessage := Some ?cm \<rparr>"
  have h1: "e_type textMessageEnd = TEXT_MESSAGE_END"
    by (simp add: textMessageEnd_def event_def)
  have h2: "currentMessage ?s = None \<or> (\<exists>cm. currentMessage ?s = Some cm \<and> cm_content cm = [])"
    by simp
  from C9_text_end_without_content [OF h1 h2, of "(''u1'', ''u2'')" "{''m1''}"]
  show ?thesis by (simp add: initialState_def)
qed

subsection \<open>Duplicate delivery of text-end and tool-end\<close>

lemma text_end_twice:
  assumes "e_type e = TEXT_MESSAGE_END"
  shows "processEvent rnd' e (processEvent rnd e sh) = processEvent rnd e sh"
proof -
  obtain s hidden where sh: "sh = (s, hidden)" by (cases sh)
  have cur: "currentMessage (onTextMessageEnd rnd hidden e s) = None"
    by (simp add: onTextMessageEnd_def Let_def split: option.splits)
  have "onTextMessageEnd rnd' hidden e (onTextMessageEnd rnd hidden e s)
      = (onTextMessageEnd rnd hidden e s)\<lparr> currentMessage := None \<rparr>"
    using cur by (simp add: onTextMessageEnd_def [of rnd' hidden e])
  also have "\<dots> = onTextMessageEnd rnd hidden e s"
    using cur by (metis AGUIClientState.surjective AGUIClientState.update_convs(7))
  finally show ?thesis
    using assms by (simp add: sh processEvent_def EventType_defs)
qed

lemma clearCurrentToolCall_pending [simp]:
  "pendingToolCalls (clearCurrentToolCall t s) = pendingToolCalls s"
  by (simp add: clearCurrentToolCall_def split: option.splits)

lemma clearCurrentToolCall_idem:
  "clearCurrentToolCall t (clearCurrentToolCall t s) = clearCurrentToolCall t s"
  by (simp add: clearCurrentToolCall_def split: option.splits)

lemma clearCurrentToolCall_None:
  "currentToolCall s = None \<Longrightarrow> clearCurrentToolCall t s = s"
  by (simp add: clearCurrentToolCall_def)

lemma attachToMessage_fields:
  "pendingToolCalls (attachToMessage u pm ts c s) = pendingToolCalls s"
  "currentToolCall (attachToMessage u pm ts c s) = None"
  by (simp_all add: attachToMessage_def Let_def split: option.splits)

lemma onToolCallEnd_pending:
  "pendingToolCalls (onToolCallEnd rnd e s)
     = AList.delete (endedToolCallId rnd e s) (pendingToolCalls s)"
  by (simp add: onToolCallEnd_def Let_def attachToMessage_fields bufferChild_def
      appendToParent_def split: option.splits)

lemma onToolCallEnd_cleared:
  "clearCurrentToolCall (endedToolCallId rnd e s) (onToolCallEnd rnd e s) = onToolCallEnd rnd e s"
  by (simp add: onToolCallEnd_def Let_def clearCurrentToolCall_idem clearCurrentToolCall_None
      attachToMessage_fields split: option.splits)

lemma delete_twice: "AList.delete k (AList.delete k xs) = AList.delete k xs"
  by (induction xs) auto

lemma tool_end_twice_when_committed:
  assumes "e_type e = TOOL_CALL_END" and "e_toolCallId e \<noteq> []"
    and "list_ex (hasToolCall (e_toolCallId e)) (messages (fst (processEvent rnd e sh)))"
  shows "processEvent rnd' e (processEvent rnd e sh) = processEvent rnd e sh"
proof -
  obtain s hidden where sh: "sh = (s, hidden)" by (cases sh)
  let ?t = "e_toolCallId e"
  let ?s' = "onToolCallEnd rnd e s"
  have pe: "processEvent rnd e sh = (?s', hidden)"
    using assms(1) by (simp add: sh processEvent_def EventType_defs)
  have t: "endedToolCallId rnd e s = ?t" "endedToolCallId rnd' e ?s' = ?t"
    using assms(2) by (simp_all add: endedToolCallId_def)
  from assms(3) have ex: "list_ex (hasToolCall ?t) (messages ?s')" by (simp add: pe)
  have "?s'\<lparr> pendingToolCalls := AList.delete ?t (pendingToolCalls ?s') \<rparr> = ?s'"
    using onToolCallEnd_pending [of rnd e s] by (simp add: t delete_twice)
  then have "onToolCallEnd rnd' e ?s' = clearCurrentToolCall ?t ?s'"
    using ex by (simp add: onToolCallEnd_def [of rnd' e ?s'] Let_def t)
  also have "\<dots> = ?s'" using onToolCallEnd_cleared [of rnd e s] by (simp add: t)
  finally have "processEvent rnd' e (?s', hidden) = (?s', hidden)"
    using assms(1) by (simp add: processEvent_def EventType_defs)
  then show ?thesis by (simp add: pe)
qed

text \<open>
  C1. The text-end part holds (\<open>text_end_twice\<close>), and so does the tool-end part whenever
  the first delivery left the tool call in a committed message
  (\<open>tool_end_twice_when_committed\<close>). It fails after the first tool-end buffered the call:
  from the initial state, tool-start P, tool-start C with parent P and tool-end C leave C in
  \<open>pendingChildren\<close> under P and no message; the duplicate check of tool-end looks at the
  committed messages only, so the same tool-end C again commits a second tool call C, named
  \<open>unknown_tool\<close> and without parent, as a standalone tool message. The state after two
  deliveries differs from the state after one.
\<close>

theorem C1_duplicate_tool_end_after_buffering:
  "processEvents
     [((''u1'', ''u2''), toolCallStart ''P'' ''Task'' None),
      ((''u3'', ''u4''), toolCallStart ''C'' ''Read'' (Some ''P'')),
      ((''u5'', ''u6''), toolCallEnd ''C'')] (initialState, {})
   = (initialState \<lparr> pendingToolCalls := [(''P'', \<lparr> p_id = ''P'', p_name = ''Task'', p_args = [],
            p_parentToolUseId = None, p_parentMessageId = None, p_timestamp = [] \<rparr>)],
        pendingChildren := [(''P'', [toolMessage ''u5'' ''C''
           \<lparr> tc_id = ''C'', tc_name = ''Read'', tc_arguments = [], tc_result = None,
             tc_status = Some ToolCompleted, tc_parentToolUseId = Some ''P'' \<rparr> None])] \<rparr>, {})
   \<and> processEvents
     [((''u1'', ''u2''), toolCallStart ''P'' ''Task'' None),
      ((''u3'', ''u4''), toolCallStart ''C'' ''Read'' (Some ''P'')),
      ((''u5'', ''u6''), toolCallEnd ''C''),
      ((''u7'', ''u8''), toolCallEnd ''C'')] (initialState, {})
   = (initialState \<lparr> messages := [toolMessage ''u7'' ''C''
           \<lparr> tc_id = ''C'', tc_name = ''unknown_tool'', tc_arguments = [], tc_result = None,
             tc_status = Some ToolCompleted, tc_parentToolUseId = None \<rparr> (Some [])],
        pendingToolCalls := [(''P'', \<lparr> p_id = ''P'', p_name = ''Task'', p_args = [],
            p_parentToolUseId = None, p_parentMessageId = None, p_timestamp = [] \<rparr>)],
        pendingChildren := [(''P'', [toolMessage ''u5'' ''C''
           \<lparr> tc_id = ''C'', tc_name = ''Read'', tc_arguments = [], tc_result = None,
             tc_status = Some ToolCompleted, tc_parentToolUseId = Some ''P'' \<rparr> None])] \<rparr>, {})"
  by (simp add: processEvent_def EventType_defs event_defs js_defs initialState_def
        onToolCallStart_def toolCallEnd_defs Let_def AList.delete_eq)

subsection \<open>Flushing buffered children\<close>

lemma buffered_child_flushed_under_assistant:
  "processEvents
     [((''u1'', ''u2''), toolCallStart ''P'' ''Task'' None),
      ((''u3'', ''u4''), toolCallStart ''C'' ''Read'' (Some ''P'')),
      ((''u5'', ''u6''), toolCallEnd ''C''),
      ((''u7'', ''u8''), toolCallEnd ''P'')]
     (initialState \<lparr> messages := [snapshotMessage ''a1'' ''assistant'' ''hi''] \<rparr>, {})
   = (initialState \<lparr> messages := [assistantWithToolCalls ''a1''
          [\<lparr> tc_id = ''P'', tc_name = ''Task'', tc_arguments = [], tc_result = None,
             tc_status = Some ToolCompleted, tc_parentToolUseId = None \<rparr>,
           \<lparr> tc_id = ''C'', tc_name = ''Read'', tc_arguments = [], tc_result = None,
             tc_status = Some ToolCompleted, tc_parentToolUseId = Some ''P'' \<rparr>]
          \<lparr> m_content := Some ''hi'' \<rparr>] \<rparr>, {})"
  by (simp add: processEvent_def EventType_defs event_defs js_defs initialState_def
        onToolCallStart_def toolCallEnd_defs Let_def AList.delete_eq)

text \<open>
  C3. With an assistant message to attach P to, tool-end P appends the buffered child C
  after P and removes it from \<open>pendingChildren\<close> (\<open>buffered_child_flushed_under_assistant\<close>).
  From the initial state, where no message exists, tool-end P takes the branch that commits
  P as a standalone tool message; this branch does not read \<open>pendingChildren\<close>: no tool
  call C is in the messages afterwards, and C stays buffered under P.
\<close>

theorem C3_buffered_child_not_flushed_standalone:
  "processEvents
     [((''u1'', ''u2''), toolCallStart ''P'' ''Task'' None),
      ((''u3'', ''u4''), toolCallStart ''C'' ''Read'' (Some ''P'')),
      ((''u5'', ''u6''), toolCallEnd ''C''),
      ((''u7'', ''u8''), toolCallEnd ''P'')] (initialState, {})
   = (initialState \<lparr> messages := [toolMessage ''u7'' ''P''
           \<lparr> tc_id = ''P'', tc_name = ''Task'', tc_arguments = [], tc_result = None,
             tc_status = Some ToolCompleted, tc_parentToolUseId = None \<rparr> (Some [])],
        pendingChildren := [(''P'', [toolMessage ''u5'' ''C''
           \<lparr> tc_id = ''C'', tc_name = ''Read'', tc_arguments = [], tc_result = None,
             tc_status = Some ToolCompleted, tc_parentToolUseId = Some ''P'' \<rparr> None])] \<rparr>, {})
   \<and> \<not> list_ex (hasToolCall ''C'') (messages (fst (processEvents
     [((''u1'', ''u2''), toolCallStart ''P'' ''Task'' None),
      ((''u3'', ''u4''), toolCallStart ''C'' ''Read'' (Some ''P'')),
      ((''u5'', ''u6''), toolCallEnd ''C''),
      ((''u7'', ''u8''), toolCallEnd ''P'')] (initialState, {}))))"
  by (simp add: processEvent_def EventType_defs event_defs js_defs initialState_def
        onToolCallStart_def toolCallEnd_defs Let_def AList.delete_eq)

subsection \<open>Messages snapshot: the ids of the merged messages\<close>

lemma map_id_update:
  "m_id y = m_id (xs ! k) \<Longrightarrow> map m_id (xs[k := y]) = map m_id xs"
  by (cases "k < length xs") (simp_all add: map_update list_update_same_conv list_update_beyond)

lemma normalizeStep_ids:
  "map m_id (fst (normalizeStep parentIds pri i acc)) = map m_id (fst acc)"
  by (simp add: normalizeStep_def Let_def map_id_update split: option.splits prod.splits)

lemma normalizeFold_ids:
  "map m_id (fst (fold (normalizeStep parentIds pri) is acc)) = map m_id (fst acc)"
  by (induction "is" arbitrary: acc) (simp_all add: normalizeStep_ids)

lemma set_map_snd_filter_enumerate:
  "set (map snd (filter P (enumerate n xs))) \<subseteq> set xs"
  by (auto simp: in_set_enumerate_eq)

lemma normalize_ids_subset:
  "m_id ` set (normalizeSnapshotMessages xs) \<subseteq> m_id ` set xs"
proof (cases "parentToolCallIdsOf xs = []")
  case True
  then show ?thesis by (simp add: normalizeSnapshotMessages_def)
next
  case False
  let ?r = "fold (normalizeStep (parentToolCallIdsOf xs)
      (parentResultIndexOf (parentToolCallIdsOf xs) xs)) [0 ..< length xs] (xs, {})"
  have "m_id ` set (normalizeSnapshotMessages xs) \<subseteq> m_id ` set (fst ?r)"
    using False set_map_snd_filter_enumerate [of _ 0 "fst ?r"]
    by (auto simp: normalizeSnapshotMessages_def Let_def)
  also have "\<dots> = set (map m_id (fst ?r))" by simp
  also have "\<dots> = m_id ` set xs" by (simp add: normalizeFold_ids)
  finally show ?thesis .
qed

lemma find_Some_mem: "find P xs = Some x \<Longrightarrow> P x \<and> x \<in> set xs"
  by (induction xs) (auto split: if_splits)

lemma snapshotVersionOf_id:
  "snapshotVersionOf N i = Some sv \<Longrightarrow> m_id sv = i \<and> sv \<in> set N"
  by (auto simp: snapshotVersionOf_def dest: find_Some_mem)

lemma mergeMessage_id: "m_id (mergeMessage N msg) = m_id msg"
  by (auto simp: mergeMessage_def split: option.splits dest: snapshotVersionOf_id)

lemma recoverNames_id: "m_id (recoverNames nm msg) = m_id msg"
  by (simp add: recoverNames_def split: option.splits)

lemma insertNew_ids:
  "m_id ` set (insertNew N ex M) \<subseteq> m_id ` set N \<union> m_id ` set M"
proof (induction N ex M rule: insertNew.induct)
  case (1 ex M)
  then show ?case by simp
next
  case (2 msg rest ex M)
  show ?case
  proof (cases "m_id msg \<in> ex")
    case True
    with 2(1) show ?thesis by auto
  next
    case False
    let ?b = "map_option m_id (find (\<lambda>m. m_id m \<in> ex) rest)"
    let ?M' = "(if truthy ?b
               then (case findIndex (\<lambda>m. m_id m = the ?b) M of
                       Some idx \<Rightarrow> take idx M @ msg # drop idx M
                     | None \<Rightarrow> M @ [msg])
               else M @ [msg])"
    have M': "set ?M' = insert msg (set M)"
      by (auto split: option.splits dest: in_set_takeD in_set_dropD)
         (metis append_take_drop_id Un_iff set_append)+
    from 2(2) [OF False refl refl] have "m_id ` set (insertNew rest (insert (m_id msg) ex) ?M')
        \<subseteq> m_id ` set rest \<union> m_id ` set ?M'" .
    with False M' show ?thesis by (auto simp: Let_def)
  qed
qed


lemma onMessagesSnapshot_ids:
  "m_id ` set (messages (onMessagesSnapshot hidden e s))
     \<subseteq> m_id ` set (messages s) \<union> (m_id ` set (e_messages e) - hidden)"
proof -
  let ?vis = "filter (\<lambda>msg. m_id msg \<notin> hidden) (e_messages e)"
  let ?N = "normalizeSnapshotMessages ?vis"
  let ?merged = "insertNew ?N (set (map m_id (messages s)))
                     (map (mergeMessage ?N) (messages s))"
  let ?named = "map (recoverNames (toolNameMapOf ?merged (pendingToolCalls s))) ?merged"
  have m: "messages (onMessagesSnapshot hidden e s)
      = filter (keepMessage (nestedToolCallIdsOf ?named)) ?named"
    by (simp add: onMessagesSnapshot_def Let_def)
  have 1: "m_id ` set (messages (onMessagesSnapshot hidden e s)) \<subseteq> m_id ` set ?named"
    unfolding m by (rule image_mono) simp
  have 2: "m_id ` set ?named = m_id ` set ?merged"
    by (simp add: image_image recoverNames_id)
  have 3: "m_id ` set ?merged \<subseteq> m_id ` set ?N \<union> m_id ` set (map (mergeMessage ?N) (messages s))"
    by (rule insertNew_ids)
  have 4: "m_id ` set (map (mergeMessage ?N) (messages s)) = m_id ` set (messages s)"
    by (simp add: image_image mergeMessage_id)
  have 5: "m_id ` set ?N \<subseteq> m_id ` set ?vis" by (rule normalize_ids_subset)
  have 6: "m_id ` set ?vis \<subseteq> m_id ` set (e_messages e) - hidden" by auto
  from 3 4 5 6 have "m_id ` set ?merged \<subseteq> m_id ` set (messages s) \<union> (m_id ` set (e_messages e) - hidden)"
    by blast
  with 1 2 show ?thesis by simp
qed

text \<open>
  C10. The snapshot handler filters the snapshot's messages by the hidden set before it
  normalizes and merges them: the result is the same as for the snapshot without its
  hidden messages, and every message of the result with a hidden id has the id of a
  message the state held before the merge, so none enters through the snapshot. The
  hidden set itself is unchanged.
\<close>

theorem C10_hidden_messages_excluded:
  assumes "e_type e = MESSAGES_SNAPSHOT"
  shows "processEvent rnd e (s, hidden)
       = processEvent rnd (e\<lparr> e_messages := filter (\<lambda>m. m_id m \<notin> hidden) (e_messages e) \<rparr>)
           (s, hidden)
     \<and> (\<forall>m \<in> set (messages (fst (processEvent rnd e (s, hidden)))).
          m_id m \<in> hidden \<longrightarrow> m_id m \<in> m_id ` set (messages s))
     \<and> snd (processEvent rnd e (s, hidden)) = hidden"
proof -
  have pe: "processEvent rnd e (s, hidden) = (onMessagesSnapshot hidden e s, hidden)"
    using assms by (simp add: processEvent_def EventType_defs)
  have same: "onMessagesSnapshot hidden e s
      = onMessagesSnapshot hidden
          (e\<lparr> e_messages := filter (\<lambda>m. m_id m \<notin> hidden) (e_messages e) \<rparr>) s"
    by (simp add: onMessagesSnapshot_def)
  have "processEvent rnd (e\<lparr> e_messages := filter (\<lambda>m. m_id m \<notin> hidden) (e_messages e) \<rparr>)
           (s, hidden) = (onMessagesSnapshot hidden
          (e\<lparr> e_messages := filter (\<lambda>m. m_id m \<notin> hidden) (e_messages e) \<rparr>) s, hidden)"
    using assms by (simp add: processEvent_def EventType_defs)
  with pe same have one: "processEvent rnd e (s, hidden)
       = processEvent rnd (e\<lparr> e_messages := filter (\<lambda>m. m_id m \<notin> hidden) (e_messages e) \<rparr>)
           (s, hidden)" by simp
  have two: "\<forall>m \<in> set (messages (fst (processEvent rnd e (s, hidden)))).
          m_id m \<in> hidden \<longrightarrow> m_id m \<in> m_id ` set (messages s)"
    using onMessagesSnapshot_ids [of hidden e s] by (auto simp: pe)
  have three: "snd (processEvent rnd e (s, hidden)) = hidden" by (simp add: pe)
  from one two three show ?thesis by (intro conjI)
qed

theorem C10_hidden_messages_excluded_witness:
  "e_type (messagesSnapshot [snapshotMessage ''h1'' ''user'' ''auto prompt'',
                         snapshotMessage ''m2'' ''assistant'' ''reply'']) = MESSAGES_SNAPSHOT
   \<and> ''h1'' \<notin> m_id ` set (messages (fst (processEvent (''u1'', ''u2'')
      (messagesSnapshot [snapshotMessage ''h1'' ''user'' ''auto prompt'',
                         snapshotMessage ''m2'' ''assistant'' ''reply''])
      (initialState, {''h1''}))))
   \<and> map m_id (messages (fst (processEvent (''u1'', ''u2'')
      (messagesSnapshot [snapshotMessage ''h1'' ''user'' ''auto prompt'',
                         snapshotMessage ''m2'' ''assistant'' ''reply''])
      (initialState, {''h1''})))) = [''m2'']"
proof -
  let ?e = "messagesSnapshot [snapshotMessage ''h1'' ''user'' ''auto prompt'',
                         snapshotMessage ''m2'' ''assistant'' ''reply'']"
  have h: "e_type ?e = MESSAGES_SNAPSHOT" by (simp add: event_defs)
  have v: "map m_id (messages (fst (processEvent (''u1'', ''u2'') ?e (initialState, {''h1''}))))
      = [''m2'']" by code_simp
  define r where "r = messages (fst (processEvent (''u1'', ''u2'') ?e (initialState, {''h1''})))"
  have "\<forall>m \<in> set r. m_id m \<in> {''h1''} \<longrightarrow> m_id m \<in> m_id ` set (messages initialState)"
    using C10_hidden_messages_excluded [OF h, of "(''u1'', ''u2'')" initialState "{''h1''}"]
    unfolding r_def by (rule conjunct1 [OF conjunct2])
  moreover have "messages initialState = []" by (simp add: initialState_def)
  ultimately have "''h1'' \<notin> m_id ` set r" by auto
  then have "''h1'' \<notin> m_id ` set (messages (fst (processEvent (''u1'', ''u2'') ?e
      (initialState, {''h1''}))))" unfolding r_def .
  with h v show ?thesis by (intro conjI)
qed

subsection \<open>Messages snapshot: where new messages are inserted\<close>

lemma findIndex_Some:
  "findIndex P xs = Some i \<Longrightarrow> i < length xs \<and> P (xs ! i) \<and> (\<forall>x \<in> set (take i xs). \<not> P x)"
proof (induction xs arbitrary: i)
  case Nil
  then show ?case by simp
next
  case (Cons x xs)
  show ?case
  proof (cases "P x")
    case True
    with Cons.prems show ?thesis by simp
  next
    case False
    with Cons.prems obtain j where j: "findIndex P xs = Some j" "i = Suc j" by auto
    from Cons.IH [OF j(1)] False j(2) show ?thesis by simp
  qed
qed

lemma findIndex_None: "findIndex P xs = None \<longleftrightarrow> (\<forall>x \<in> set xs. \<not> P x)"
  by (induction xs) auto

lemma find_append_skip:
  "\<forall>b \<in> set B. \<not> P b \<Longrightarrow> P k \<Longrightarrow> find P (B @ k # C) = Some k"
  by (induction B) auto

lemma dropWhile_insert_keeps:
  assumes "a \<notin> m_id ` set (dropWhile (\<lambda>m. m_id m \<noteq> b) M)"
    and "m_id x \<noteq> a" and "m_id x \<noteq> b"
  shows "a \<notin> m_id ` set (dropWhile (\<lambda>m. m_id m \<noteq> b) (take i M @ x # drop i M))"
  using assms
proof (induction M arbitrary: i)
  case Nil
  then show ?case by simp
next
  case (Cons y ys)
  show ?case
  proof (cases i)
    case 0
    with Cons.prems show ?thesis by simp
  next
    case (Suc j)
    show ?thesis
    proof (cases "m_id y = b")
      case True
      with Cons.prems Suc show ?thesis
        by (auto dest: in_set_takeD in_set_dropD)
    next
      case False
      with Cons.prems have "a \<notin> m_id ` set (dropWhile (\<lambda>m. m_id m \<noteq> b) ys)" by simp
      from Cons.IH [OF this Cons.prems(2,3), of j] False Suc show ?thesis by simp
    qed
  qed
qed

lemma insert_position_keeps:
  assumes "a \<notin> m_id ` set (dropWhile (\<lambda>m. m_id m \<noteq> b) M)"
    and "m_id x \<noteq> a" and "m_id x \<noteq> b"
  shows "a \<notin> m_id ` set (dropWhile (\<lambda>m. m_id m \<noteq> b)
           (if truthy ib
            then (case findIndex (\<lambda>m. m_id m = the ib) M of
                    Some idx \<Rightarrow> take idx M @ x # drop idx M
                  | None \<Rightarrow> M @ [x])
            else M @ [x]))"
proof -
  have app: "M @ [x] = take (length M) M @ x # drop (length M) M" by simp
  show ?thesis
    using dropWhile_insert_keeps [OF assms] by (auto simp only: app split: option.splits if_splits)
qed

lemma insertNew_keeps:
  assumes "a \<notin> m_id ` set (dropWhile (\<lambda>m. m_id m \<noteq> b) M)" and "a \<in> ex" and "b \<in> ex"
  shows "a \<notin> m_id ` set (dropWhile (\<lambda>m. m_id m \<noteq> b) (insertNew N ex M))"
  using assms
proof (induction N arbitrary: ex M)
  case Nil
  then show ?case by simp
next
  case (Cons msg rest)
  show ?case
  proof (cases "m_id msg \<in> ex")
    case True
    with Cons show ?thesis by simp
  next
    case False
    with Cons.prems have ne: "m_id msg \<noteq> a" "m_id msg \<noteq> b" by auto
    let ?ib = "map_option m_id (find (\<lambda>m. m_id m \<in> ex) rest)"
    let ?M' = "(if truthy ?ib
                then (case findIndex (\<lambda>m. m_id m = the ?ib) M of
                        Some idx \<Rightarrow> take idx M @ msg # drop idx M
                      | None \<Rightarrow> M @ [msg])
                else M @ [msg])"
    have "a \<notin> m_id ` set (dropWhile (\<lambda>m. m_id m \<noteq> b) ?M')"
      by (rule insert_position_keeps [OF Cons.prems(1) ne])
    from Cons.IH [OF this, of "insert (m_id msg) ex"] Cons.prems(2,3) False
    show ?thesis by (simp add: Let_def)
  qed
qed


lemma insert_position_set:
  "set (if truthy ib
        then (case findIndex (\<lambda>m. m_id m = the ib) M of
                Some idx \<Rightarrow> take idx M @ x # drop idx M
              | None \<Rightarrow> M @ [x])
        else M @ [x]) = insert x (set M)"
proof -
  have "set (take idx M @ x # drop idx M) = insert x (set M)" for idx
  proof -
    have "set M = set (take idx M) \<union> set (drop idx M)"
      by (metis append_take_drop_id set_append)
    then show ?thesis by auto
  qed
  then show ?thesis by (simp split: option.splits)
qed

lemma insertNew_Cons_new:
  assumes "m_id msg \<notin> ex" and "find (\<lambda>m. m_id m \<in> ex) rest = Some k" and "m_id k \<noteq> []"
    and "findIndex (\<lambda>m. m_id m = m_id k) M = Some idx"
  shows "insertNew (msg # rest) ex M
       = insertNew rest (insert (m_id msg) ex) (take idx M @ msg # drop idx M)"
  using assms by (simp add: truthy_def Let_def)

lemma insertNew_new_before_known:
  assumes "m_id k \<in> ex" and "m_id k \<noteq> []" and "m_id ` set M \<subseteq> ex"
    and "m_id k \<in> m_id ` set M" and "m_id n \<notin> ex"
    and "\<forall>b \<in> set B. m_id b \<notin> ex" and "m_id n \<notin> m_id ` set A"
    and "m_id ` set A \<inter> m_id ` set B = {}"
  shows "m_id n \<notin> m_id ` set (dropWhile (\<lambda>m. m_id m \<noteq> m_id k)
           (insertNew (A @ n # B @ k # C) ex M))"
  using assms
proof (induction A arbitrary: ex M)
  case Nil
  let ?P = "\<lambda>m. m_id m \<noteq> m_id k"
  have f: "find (\<lambda>m. m_id m \<in> ex) (B @ k # C) = Some k"
    using Nil.prems(1,6) by (intro find_append_skip) auto
  obtain idx where idx: "findIndex (\<lambda>m. m_id m = m_id k) M = Some idx"
    using Nil.prems(4) findIndex_None [of "\<lambda>m. m_id m = m_id k" M] by (cases "findIndex (\<lambda>m. m_id m = m_id k) M") auto
  let ?M' = "take idx M @ n # drop idx M"
  have nk: "m_id n \<noteq> m_id k" using Nil.prems(1,5) by auto
  have pre: "\<forall>x \<in> set (take idx M). ?P x"
    using findIndex_Some [OF idx] by simp
  have "dropWhile ?P ?M' = dropWhile ?P (n # drop idx M)"
    using pre by (simp add: dropWhile_append2)
  also have "\<dots> = dropWhile ?P (drop idx M)" using nk by simp
  finally have "set (dropWhile ?P ?M') \<subseteq> set M"
    using set_dropWhileD [of _ ?P "drop idx M"] by (auto dest: in_set_dropD)
  moreover have "m_id n \<notin> m_id ` set M" using Nil.prems(3,5) by auto
  ultimately have start: "m_id n \<notin> m_id ` set (dropWhile ?P ?M')" by auto
  have step: "insertNew (n # B @ k # C) ex M
      = insertNew (B @ k # C) (insert (m_id n) ex) ?M'"
    by (rule insertNew_Cons_new [OF Nil.prems(5) f Nil.prems(2) idx])
  have "m_id n \<notin> m_id ` set (dropWhile ?P (insertNew (B @ k # C) (insert (m_id n) ex) ?M'))"
    using Nil.prems(1) by (intro insertNew_keeps [OF start]) auto
  with step show ?case by simp
next
  case (Cons a A)
  show ?case
  proof (cases "m_id a \<in> ex")
    case True
    have "m_id n \<notin> m_id ` set (dropWhile (\<lambda>m. m_id m \<noteq> m_id k)
           (insertNew (A @ n # B @ k # C) ex M))"
      using Cons.prems by (intro Cons.IH) auto
    with True show ?thesis by simp
  next
    case False
    let ?ib = "map_option m_id (find (\<lambda>m. m_id m \<in> ex) (A @ n # B @ k # C))"
    let ?M' = "(if truthy ?ib
                then (case findIndex (\<lambda>m. m_id m = the ?ib) M of
                        Some idx \<Rightarrow> take idx M @ a # drop idx M
                      | None \<Rightarrow> M @ [a])
                else M @ [a])"
    have M': "set ?M' = insert a (set M)" by (rule insert_position_set)
    have "m_id n \<notin> m_id ` set (dropWhile (\<lambda>m. m_id m \<noteq> m_id k)
           (insertNew (A @ n # B @ k # C) (insert (m_id a) ex) ?M'))"
    proof (intro Cons.IH)
      show "m_id k \<in> insert (m_id a) ex" using Cons.prems(1) by simp
      show "m_id k \<noteq> []" by fact
      show "m_id ` set ?M' \<subseteq> insert (m_id a) ex" using Cons.prems(3) unfolding M' by auto
      show "m_id k \<in> m_id ` set ?M'" using Cons.prems(4) unfolding M' by auto
      show "m_id n \<notin> insert (m_id a) ex" using Cons.prems(5,7) by auto
      show "\<forall>b \<in> set B. m_id b \<notin> insert (m_id a) ex"
      proof
        fix b assume b: "b \<in> set B"
        then have mb: "m_id b \<in> m_id ` set B" by (rule imageI)
        have "m_id b \<noteq> m_id a"
        proof
          assume "m_id b = m_id a"
          with mb have "m_id a \<in> m_id ` set (a # A) \<inter> m_id ` set B" by simp
          then have "m_id a \<in> {}" by (simp only: Cons.prems(8))
          then show False by simp
        qed
        with b Cons.prems(6) show "m_id b \<notin> insert (m_id a) ex" by simp
      qed
      show "m_id n \<notin> m_id ` set A" using Cons.prems(7) by auto
      show "m_id ` set A \<inter> m_id ` set B = {}" using Cons.prems(8) by auto
    qed
    with False show ?thesis by (simp add: Let_def)
  qed
qed

lemma dropWhile_filter_subset:
  "set (dropWhile (\<lambda>m. m_id m \<noteq> b) (filter Q xs)) \<subseteq> set (dropWhile (\<lambda>m. m_id m \<noteq> b) xs)"
proof (induction xs)
  case Nil
  show ?case by simp
next
  case (Cons x xs)
  show ?case
  proof (cases "m_id x = b")
    case True
    have "set (dropWhile (\<lambda>m. m_id m \<noteq> b) (filter Q xs)) \<subseteq> set (filter Q xs)"
      by (auto dest: set_dropWhileD)
    with True show ?thesis by auto
  next
    case False
    with Cons show ?thesis by auto
  qed
qed

lemma dropWhile_map_ids:
  assumes "\<And>m. m_id (g m) = m_id m"
  shows "m_id ` set (dropWhile (\<lambda>m. m_id m \<noteq> b) (map g xs))
       = m_id ` set (dropWhile (\<lambda>m. m_id m \<noteq> b) xs)"
  by (induction xs) (auto simp: assms image_image)


lemma onMessagesSnapshot_messages:
  "messages (onMessagesSnapshot hidden e s) =
     (let N = normalizeSnapshotMessages (filter (\<lambda>msg. m_id msg \<notin> hidden) (e_messages e));
          merged = insertNew N (set (map m_id (messages s))) (map (mergeMessage N) (messages s));
          named = map (recoverNames (toolNameMapOf merged (pendingToolCalls s))) merged
      in filter (keepMessage (nestedToolCallIdsOf named)) named)"
  by (simp add: onMessagesSnapshot_def Let_def)

lemma filter_insert_position:
  assumes "\<not> P x"
  shows "filter P (take i M @ x # drop i M) = filter P M"
proof -
  have "filter P (take i M @ x # drop i M) = filter P (take i M) @ filter P (drop i M)"
    using assms by simp
  also have "\<dots> = filter P (take i M @ drop i M)" by (simp only: filter_append)
  also have "\<dots> = filter P M" by (simp only: append_take_drop_id)
  finally show ?thesis .
qed

lemma find_single:
  "filter P xs = [x] \<Longrightarrow> find P xs = Some x"
  by (induction xs) (auto split: if_splits)


lemma filter_single_holds:
  assumes "filter P xs = [x]"
  shows "P x"
proof -
  have "x \<in> set (filter P xs)" by (simp only: assms) simp
  then show ?thesis by simp
qed

lemma recoverNames_plain: "m_role m \<noteq> ''assistant'' \<Longrightarrow> recoverNames nm m = m"
  by (simp add: recoverNames_def)

lemma keepMessage_plain: "m_role m \<noteq> ''tool'' \<Longrightarrow> keepMessage nested m"
  by (simp add: keepMessage_def)

lemma new_message_not_after_next_known:
  assumes "e_type e = MESSAGES_SNAPSHOT"
    and "normalizeSnapshotMessages (filter (\<lambda>m. m_id m \<notin> hidden) (e_messages e))
           = A @ n # B @ k # C"
    and "distinct (map m_id (A @ n # B))"
    and "m_id n \<notin> m_id ` set (messages s)"
    and "m_id k \<in> m_id ` set (messages s)" and "m_id k \<noteq> []"
    and "\<forall>b \<in> set B. m_id b \<notin> m_id ` set (messages s)"
  shows "\<not> positionedAfter (m_id n) (m_id k) (messages (fst (processEvent rnd e (s, hidden))))"
proof -
  let ?N = "normalizeSnapshotMessages (filter (\<lambda>m. m_id m \<notin> hidden) (e_messages e))"
  let ?ex = "set (map m_id (messages s))"
  let ?M = "map (mergeMessage ?N) (messages s)"
  let ?merged = "insertNew ?N ?ex ?M"
  let ?named = "map (recoverNames (toolNameMapOf ?merged (pendingToolCalls s))) ?merged"
  let ?P = "\<lambda>m. m_id m \<noteq> m_id k"
  have idsM: "m_id ` set ?M = m_id ` set (messages s)"
    by (simp add: image_image mergeMessage_id)
  have "m_id n \<notin> m_id ` set (dropWhile ?P (insertNew (A @ n # B @ k # C) ?ex ?M))"
  proof (rule insertNew_new_before_known)
    show "m_id k \<in> ?ex" using assms(5) by simp
    show "m_id k \<noteq> []" by fact
    show "m_id ` set ?M \<subseteq> ?ex" using idsM by simp
    show "m_id k \<in> m_id ` set ?M" using idsM assms(5) by simp
    show "m_id n \<notin> ?ex" using assms(4) by simp
    show "\<forall>b \<in> set B. m_id b \<notin> ?ex" using assms(7) by simp
    show "m_id n \<notin> m_id ` set A" using assms(3) by auto
    show "m_id ` set A \<inter> m_id ` set B = {}" using assms(3) by auto
  qed
  then have merged: "m_id n \<notin> m_id ` set (dropWhile ?P ?merged)"
    unfolding assms(2) .
  have "m_id ` set (dropWhile ?P ?named) = m_id ` set (dropWhile ?P ?merged)"
    by (rule dropWhile_map_ids) (rule recoverNames_id)
  with merged have named: "m_id n \<notin> m_id ` set (dropWhile ?P ?named)" by simp
  have "set (dropWhile ?P (filter (keepMessage (nestedToolCallIdsOf ?named)) ?named))
      \<subseteq> set (dropWhile ?P ?named)"
    by (rule dropWhile_filter_subset)
  with named have "m_id n \<notin> m_id ` set (dropWhile ?P
      (filter (keepMessage (nestedToolCallIdsOf ?named)) ?named))" by blast
  moreover have "messages (fst (processEvent rnd e (s, hidden)))
      = filter (keepMessage (nestedToolCallIdsOf ?named)) ?named"
    using assms(1) by (simp add: processEvent_def EventType_defs onMessagesSnapshot_messages Let_def)
  ultimately show ?thesis by (simp add: positionedAfter_def)
qed

text \<open>The insertion loop in terms of \<open>spliceBefore\<close>.\<close>

lemma insertNew_new:
  "m_id msg \<notin> ex \<Longrightarrow> insertNew (msg # rest) ex M
     = insertNew rest (insert (m_id msg) ex)
         (spliceBefore (map_option m_id (find (\<lambda>m. m_id m \<in> ex) rest)) msg M)"
  by (simp add: spliceBefore_def Let_def)

lemma spliceBefore_cases:
  obtains idx where "spliceBefore ib x M = take idx M @ x # drop idx M"
proof (cases "truthy ib \<and> findIndex (\<lambda>m. m_id m = the ib) M \<noteq> None")
  case True
  then obtain i where "findIndex (\<lambda>m. m_id m = the ib) M = Some i" by auto
  with True have "spliceBefore ib x M = take i M @ x # drop i M"
    by (simp add: spliceBefore_def)
  then show ?thesis by (rule that)
next
  case False
  then have "spliceBefore ib x M = take (length M) M @ x # drop (length M) M"
    by (auto simp: spliceBefore_def)
  then show ?thesis by (rule that)
qed

lemma spliceBefore_set: "set (spliceBefore ib x M) = insert x (set M)"
proof -
  obtain idx where "spliceBefore ib x M = take idx M @ x # drop idx M"
    by (rule spliceBefore_cases)
  moreover have "set M = set (take idx M) \<union> set (drop idx M)"
    by (metis append_take_drop_id set_append)
  ultimately show ?thesis by auto
qed

lemma spliceBefore_filter:
  assumes "\<not> P x"
  shows "filter P (spliceBefore ib x M) = filter P M"
proof -
  obtain idx where "spliceBefore ib x M = take idx M @ x # drop idx M"
    by (rule spliceBefore_cases)
  then show ?thesis using filter_insert_position [of P x idx M] assms by simp
qed

lemma insertNew_filter_ids:
  assumes "S \<subseteq> ex"
  shows "filter (\<lambda>m. m_id m \<in> S) (insertNew N ex M) = filter (\<lambda>m. m_id m \<in> S) M"
  using assms
proof (induction N arbitrary: ex M)
  case Nil
  show ?case by simp
next
  case (Cons msg rest)
  show ?case
  proof (cases "m_id msg \<in> ex")
    case True
    with Cons show ?thesis by simp
  next
    case False
    with Cons.prems have "m_id msg \<notin> S" by auto
    then have "filter (\<lambda>m. m_id m \<in> S)
        (spliceBefore (map_option m_id (find (\<lambda>m. m_id m \<in> ex) rest)) msg M)
      = filter (\<lambda>m. m_id m \<in> S) M"
      by (intro spliceBefore_filter) simp
    moreover have "S \<subseteq> insert (m_id msg) ex" using Cons.prems by auto
    ultimately show ?thesis
      unfolding insertNew_new [OF False] using Cons.IH by simp
  qed
qed

lemma findIndex_append:
  "findIndex P (xs @ ys) =
     (case findIndex P xs of
        Some i \<Rightarrow> Some i
      | None \<Rightarrow> map_option (\<lambda>j. length xs + j) (findIndex P ys))"
proof (cases "findIndex P ys")
  case None
  then show ?thesis by (induction xs) (auto split: option.splits)
next
  case (Some j)
  then show ?thesis by (induction xs) (auto split: option.splits)
qed

lemma findIndex_at:
  assumes "\<forall>x \<in> set X. \<not> P x" and "P k"
  shows "findIndex P (X @ k # post) = Some (length X)"
proof -
  from assms(1) have "findIndex P X = None" by (simp add: findIndex_None)
  with assms(2) show ?thesis by (simp add: findIndex_append)
qed

text \<open>A run of new messages goes in front of the known message that follows it.\<close>

lemma insertNew_run:
  assumes "\<forall>b \<in> set B. m_id b \<notin> ex" and "distinct (map m_id B)"
    and "m_id k \<in> ex" and "m_id k \<noteq> []" and "m_id k' = m_id k"
    and "m_id k \<notin> m_id ` set X"
  shows "insertNew (B @ k # C) ex (X @ k' # post)
       = insertNew C (ex \<union> m_id ` set B) (X @ B @ k' # post)"
  using assms
proof (induction B arbitrary: ex X)
  case Nil
  then show ?case by simp
next
  case (Cons b B)
  from Cons.prems(1) have new: "m_id b \<notin> ex" by simp
  have f: "find (\<lambda>m. m_id m \<in> ex) (B @ k # C) = Some k"
    using Cons.prems(1,3) by (intro find_append_skip) auto
  have "findIndex (\<lambda>m. m_id m = m_id k) (X @ k' # post) = Some (length X)"
    using Cons.prems(5,6) by (intro findIndex_at) (auto simp: image_iff)
  then have sp: "spliceBefore (Some (m_id k)) b (X @ k' # post) = (X @ [b]) @ k' # post"
    using Cons.prems(4) by (simp add: spliceBefore_def truthy_def)
  have "insertNew ((b # B) @ k # C) ex (X @ k' # post)
      = insertNew (B @ k # C) (insert (m_id b) ex) ((X @ [b]) @ k' # post)"
    using insertNew_new [OF new, of "B @ k # C" "X @ k' # post"] by (simp add: f sp)
  also have "\<dots> = insertNew C (insert (m_id b) ex \<union> m_id ` set B) ((X @ [b]) @ B @ k' # post)"
  proof (rule Cons.IH)
    show "\<forall>b' \<in> set B. m_id b' \<notin> insert (m_id b) ex"
      using Cons.prems(1,2) by (auto simp: image_iff)
    show "distinct (map m_id B)" using Cons.prems(2) by simp
    show "m_id k \<in> insert (m_id b) ex" using Cons.prems(3) by simp
    show "m_id k \<noteq> []" by fact
    show "m_id k' = m_id k" by fact
    show "m_id k \<notin> m_id ` set (X @ [b])" using Cons.prems(3,6) new by auto
  qed
  finally show ?case by simp
qed

text \<open>A later insertion leaves a block of the list in one piece when it is not anchored
  at a message of the block.\<close>

lemma spliceBefore_block:
  assumes "truthy ib \<longrightarrow> the ib \<notin> m_id ` set blk"
  shows "\<exists>pre' post'. spliceBefore ib x (pre @ blk @ post) = pre' @ blk @ post'
     \<and> set pre' \<subseteq> insert x (set pre)"
proof (cases "truthy ib")
  case False
  then have "spliceBefore ib x (pre @ blk @ post) = pre @ blk @ (post @ [x])"
    by (simp add: spliceBefore_def)
  then show ?thesis by blast
next
  case True
  let ?P = "\<lambda>m. m_id m = the ib"
  from True assms have blk: "findIndex ?P blk = None" by (auto simp: findIndex_None image_iff)
  show ?thesis
  proof (cases "findIndex ?P pre")
    case (Some i)
    from findIndex_Some [OF Some] have i: "i < length pre" by simp
    have "findIndex ?P (pre @ blk @ post) = Some i" using Some by (simp add: findIndex_append)
    then have "spliceBefore ib x (pre @ blk @ post)
        = (take i pre @ x # drop i pre) @ blk @ post"
      using True i by (simp add: spliceBefore_def)
    moreover have "set (take i pre @ x # drop i pre) \<subseteq> insert x (set pre)"
      by (auto dest: in_set_takeD in_set_dropD)
    ultimately show ?thesis by blast
  next
    case None
    show ?thesis
    proof (cases "findIndex ?P post")
      case None': None
      have "findIndex ?P (pre @ blk @ post) = None"
        using None blk None' by (simp add: findIndex_append)
      then have "spliceBefore ib x (pre @ blk @ post) = pre @ blk @ (post @ [x])"
        using True by (simp add: spliceBefore_def)
      then show ?thesis by blast
    next
      case (Some j)
      have "findIndex ?P (pre @ blk @ post) = Some (length pre + (length blk + j))"
        using None blk Some by (simp add: findIndex_append)
      then have "spliceBefore ib x (pre @ blk @ post)
          = pre @ blk @ (take j post @ x # drop j post)"
        using True by (simp add: spliceBefore_def)
      then show ?thesis by blast
    qed
  qed
qed

lemma insertNew_keeps_block:
  assumes "m_id ` set R \<inter> m_id ` set blk = {}" and "kid \<in> ex" and "kid \<notin> m_id ` set pre"
  shows "\<exists>pre' post'. insertNew R ex (pre @ blk @ post) = pre' @ blk @ post'
     \<and> kid \<notin> m_id ` set pre'"
  using assms
proof (induction R arbitrary: ex pre post)
  case Nil
  then show ?case by auto
next
  case (Cons msg rest)
  from Cons.prems(1) have rest: "m_id ` set rest \<inter> m_id ` set blk = {}" by auto
  show ?case
  proof (cases "m_id msg \<in> ex")
    case True
    with Cons.IH [OF rest Cons.prems(2,3), of post] show ?thesis by simp
  next
    case False
    let ?ib = "map_option m_id (find (\<lambda>m. m_id m \<in> ex) rest)"
    have "truthy ?ib \<longrightarrow> the ?ib \<notin> m_id ` set blk"
    proof
      assume "truthy ?ib"
      then obtain a where a: "find (\<lambda>m. m_id m \<in> ex) rest = Some a"
        by (cases "find (\<lambda>m. m_id m \<in> ex) rest") (auto simp: truthy_def)
      from find_Some_mem [OF a] have "m_id a \<in> m_id ` set rest" by auto
      with rest have "m_id a \<notin> m_id ` set blk" by auto
      with a show "the ?ib \<notin> m_id ` set blk" by simp
    qed
    from spliceBefore_block [OF this, of msg pre post] obtain pre' post' where
      sp: "spliceBefore ?ib msg (pre @ blk @ post) = pre' @ blk @ post'"
        "set pre' \<subseteq> insert msg (set pre)" by blast
    from False Cons.prems(2) have "m_id msg \<noteq> kid" by auto
    with sp(2) Cons.prems(3) have kid: "kid \<notin> m_id ` set pre'" by auto
    have "kid \<in> insert (m_id msg) ex" using Cons.prems(2) by simp
    from Cons.IH [OF rest this kid, of post'] show ?thesis
      unfolding insertNew_new [OF False] sp(1) .
  qed
qed


lemma insertNew_block:
  assumes "distinct (map m_id (A @ n # B @ k # C))"
    and "m_id n \<notin> ex" and "\<forall>b \<in> set B. m_id b \<notin> ex"
    and "m_id k \<in> ex" and "m_id k \<noteq> []" and "m_id ` set L = ex"
  shows "\<exists>pre k' post. insertNew (A @ n # B @ k # C) ex L = pre @ n # B @ k' # post
     \<and> m_id k' = m_id k \<and> m_id k \<notin> m_id ` set pre"
  using assms
proof (induction A arbitrary: ex L)
  case Nil
  let ?P = "\<lambda>m. m_id m = m_id k"
  from Nil.prems(4,6) have "\<not> (\<forall>x \<in> set L. \<not> ?P x)" by (auto simp: image_iff)
  then obtain idx where idx: "findIndex ?P L = Some idx"
    using findIndex_None [of ?P L] by (cases "findIndex ?P L") auto
  from findIndex_Some [OF idx] have il: "idx < length L" and k': "m_id (L ! idx) = m_id k"
    and before: "\<forall>x \<in> set (take idx L). m_id x \<noteq> m_id k" by simp_all
  let ?X = "take idx L" and ?k' = "L ! idx" and ?post = "drop (Suc idx) L"
  have L: "L = ?X @ ?k' # ?post" using il by (rule id_take_nth_drop)
  have X: "m_id k \<notin> m_id ` set ?X" using before by (auto simp: image_iff)
  from Nil.prems(2) have new: "m_id n \<notin> ex" .
  have f: "find (\<lambda>m. m_id m \<in> ex) (B @ k # C) = Some k"
    using Nil.prems(3,4) by (intro find_append_skip) auto
  have sp: "spliceBefore (Some (m_id k)) n L = (?X @ [n]) @ ?k' # ?post"
  proof -
    have "spliceBefore (Some (m_id k)) n L = take idx L @ n # drop idx L"
      using idx Nil.prems(5) by (simp add: spliceBefore_def truthy_def)
    also have "drop idx L = ?k' # ?post" using il by (rule Cons_nth_drop_Suc [symmetric])
    finally show ?thesis by simp
  qed
  have "insertNew ([] @ n # B @ k # C) ex L
      = insertNew (B @ k # C) (insert (m_id n) ex) ((?X @ [n]) @ ?k' # ?post)"
    using insertNew_new [OF new, of "B @ k # C" L] by (simp add: f sp)
  also have "\<dots> = insertNew C (insert (m_id n) ex \<union> m_id ` set B)
      ((?X @ [n]) @ B @ ?k' # ?post)"
  proof (rule insertNew_run)
    show "\<forall>b \<in> set B. m_id b \<notin> insert (m_id n) ex"
      using Nil.prems(1,3) by (auto simp: image_iff)
    show "distinct (map m_id B)" using Nil.prems(1) by simp
    show "m_id k \<in> insert (m_id n) ex" using Nil.prems(4) by simp
    show "m_id k \<noteq> []" by fact
    show "m_id ?k' = m_id k" by fact
    show "m_id k \<notin> m_id ` set (?X @ [n])" using X new Nil.prems(4) by auto
  qed
  also have "(?X @ [n]) @ B @ ?k' # ?post = ?X @ (n # B @ [?k']) @ ?post" by simp
  finally have step: "insertNew ([] @ n # B @ k # C) ex L
      = insertNew C (insert (m_id n) ex \<union> m_id ` set B) (?X @ (n # B @ [?k']) @ ?post)" .
  have "\<exists>pre' post'. insertNew C (insert (m_id n) ex \<union> m_id ` set B)
           (?X @ (n # B @ [?k']) @ ?post) = pre' @ (n # B @ [?k']) @ post'
     \<and> m_id k \<notin> m_id ` set pre'"
  proof (rule insertNew_keeps_block)
    show "m_id ` set C \<inter> m_id ` set (n # B @ [?k']) = {}"
      using Nil.prems(1) k' by (auto simp: image_iff)
    show "m_id k \<in> insert (m_id n) ex \<union> m_id ` set B" using Nil.prems(4) by simp
    show "m_id k \<notin> m_id ` set ?X" by fact
  qed
  then obtain pre' post' where "insertNew ([] @ n # B @ k # C) ex L = pre' @ n # B @ ?k' # post'"
    and "m_id k \<notin> m_id ` set pre'"
    unfolding step by auto
  with k' show ?case by blast
next
  case (Cons a A)
  show ?case
  proof (cases "m_id a \<in> ex")
    case True
    have "\<exists>pre k' post. insertNew (A @ n # B @ k # C) ex L = pre @ n # B @ k' # post
       \<and> m_id k' = m_id k \<and> m_id k \<notin> m_id ` set pre"
      using Cons.prems by (intro Cons.IH) auto
    with True show ?thesis by simp
  next
    case False
    let ?L' = "spliceBefore (map_option m_id (find (\<lambda>m. m_id m \<in> ex) (A @ n # B @ k # C))) a L"
    have "\<exists>pre k' post. insertNew (A @ n # B @ k # C) (insert (m_id a) ex) ?L'
         = pre @ n # B @ k' # post \<and> m_id k' = m_id k \<and> m_id k \<notin> m_id ` set pre"
    proof (rule Cons.IH)
      show "distinct (map m_id (A @ n # B @ k # C))" using Cons.prems(1) by simp
      show "m_id n \<notin> insert (m_id a) ex" using Cons.prems(1,2) by auto
      show "\<forall>b \<in> set B. m_id b \<notin> insert (m_id a) ex"
        using Cons.prems(1,3) by (auto simp: image_iff)
      show "m_id k \<in> insert (m_id a) ex" using Cons.prems(4) by simp
      show "m_id k \<noteq> []" by fact
      show "m_id ` set ?L' = insert (m_id a) ex"
        using Cons.prems(6) by (simp add: spliceBefore_set)
    qed
    then show ?thesis
      using insertNew_new [OF False, of "A @ n # B @ k # C" L] by simp
  qed
qed


text \<open>The handler in terms of its two parts, and the cleanup of a list that holds the block.\<close>

lemma onMessagesSnapshot_cleanedUp:
  "messages (onMessagesSnapshot hidden e s)
     = cleanedUp (pendingToolCalls s)
         (insertedSnapshot
            (normalizeSnapshotMessages (filter (\<lambda>m. m_id m \<notin> hidden) (e_messages e))) s)"
  by (simp add: onMessagesSnapshot_def cleanedUp_def insertedSnapshot_def Let_def)

lemma filter_distinct_id:
  assumes "distinct (map f xs)" and "x \<in> set xs"
  shows "filter (\<lambda>y. f y = f x) xs = [x]"
  using assms by (induction xs) (auto simp: image_iff filter_empty_conv)

lemma snapshotVersionOf_distinct:
  assumes "distinct (map m_id N)" and "k \<in> set N"
  shows "snapshotVersionOf N (m_id k) = Some k"
proof -
  have "filter (\<lambda>m. m_id m = m_id k) (rev N) = rev (filter (\<lambda>m. m_id m = m_id k) N)"
    by (simp add: rev_filter)
  also have "\<dots> = [k]" using filter_distinct_id [OF assms] by simp
  finally show ?thesis unfolding snapshotVersionOf_def by (rule find_single)
qed

lemma mergeMessage_role:
  assumes "distinct (map m_id N)" and "k \<in> set N" and "m_id m = m_id k"
  shows "m_role (mergeMessage N m) = m_role k"
  using snapshotVersionOf_distinct [OF assms(1,2)] assms(3) by (simp add: mergeMessage_def)

lemma recoverNames_role: "m_role (recoverNames nm m) = m_role m"
  by (simp add: recoverNames_def split: option.splits)

lemma cleanedUp_block:
  assumes "m_role n \<noteq> ''tool''" and "m_role k' \<noteq> ''tool''"
    and "m_id k' \<notin> m_id ` set pre"
  shows "\<exists>pre' n' mid k'' post'. cleanedUp pending (pre @ n # B @ k' # post)
       = pre' @ n' # mid @ k'' # post'
     \<and> m_id n' = m_id n \<and> m_id k'' = m_id k' \<and> m_id k' \<notin> m_id ` set pre'
     \<and> m_id ` set mid \<subseteq> m_id ` set B"
proof -
  let ?L = "pre @ n # B @ k' # post"
  let ?r = "recoverNames (toolNameMapOf ?L pending)"
  let ?keep = "keepMessage (nestedToolCallIdsOf (map ?r ?L))"
  have kn: "?keep (?r n)" "?keep (?r k')"
    using assms(1,2) by (simp_all add: keepMessage_plain recoverNames_role)
  have "cleanedUp pending ?L = filter ?keep (map ?r pre) @ ?r n # filter ?keep (map ?r B)
      @ ?r k' # filter ?keep (map ?r post)"
    using kn by (simp add: cleanedUp_def Let_def)
  moreover have "m_id k' \<notin> m_id ` set (filter ?keep (map ?r pre))"
    using assms(3) by (auto simp: recoverNames_id image_iff)
  moreover have "m_id ` set (filter ?keep (map ?r B)) \<subseteq> m_id ` set B"
    by (auto simp: recoverNames_id)
  ultimately show ?thesis by (metis recoverNames_id)
qed

text \<open>
  C4. As stated the claim fails: the merge puts a new message before the already known
  message that follows it in the snapshot, so a known message can end up after a new
  message that stands earlier in the snapshot. What the merge does instead: let the
  snapshot, after the hidden filter and the normalization, have distinct ids and read
  \<open>A @ n # B @ k # C\<close>, where \<open>n\<close> and the messages of \<open>B\<close> are new to the state and
  \<open>k\<close> is known (its id not empty). The insertion loop leaves the list
  \<open>pre @ n # B @ k' # post\<close>: \<open>n\<close> and \<open>B\<close> stand, in the order of the snapshot, directly
  before the first message with the id of \<open>k\<close>. The known messages of that list are the
  messages of the state, in their order, each merged with its snapshot version. The result
  of the handler is that list after the cleanup (names recovered, nested tool messages
  removed): no message with the id of \<open>n\<close> stands in it at or after the first message with
  the id of \<open>k\<close>, and when \<open>n\<close> and \<open>k\<close> are not tool messages both are in it, \<open>k\<close>
  after \<open>n\<close> with only messages of \<open>B\<close> between them.
\<close>

theorem C4_new_messages_before_next_known:
  assumes "e_type e = MESSAGES_SNAPSHOT"
    and "normalizeSnapshotMessages (filter (\<lambda>m. m_id m \<notin> hidden) (e_messages e))
           = A @ n # B @ k # C"
    and "distinct (map m_id (A @ n # B @ k # C))"
    and "m_id n \<notin> m_id ` set (messages s)"
    and "\<forall>b \<in> set B. m_id b \<notin> m_id ` set (messages s)"
    and "m_id k \<in> m_id ` set (messages s)" and "m_id k \<noteq> []"
  shows "(\<exists>pre k' post. insertedSnapshot (A @ n # B @ k # C) s = pre @ n # B @ k' # post
            \<and> m_id k' = m_id k \<and> m_id k \<notin> m_id ` set pre)
    \<and> filter (\<lambda>m. m_id m \<in> m_id ` set (messages s)) (insertedSnapshot (A @ n # B @ k # C) s)
        = map (mergeMessage (A @ n # B @ k # C)) (messages s)
    \<and> messages (fst (processEvent rnd e (s, hidden)))
        = cleanedUp (pendingToolCalls s) (insertedSnapshot (A @ n # B @ k # C) s)
    \<and> \<not> positionedAfter (m_id n) (m_id k) (messages (fst (processEvent rnd e (s, hidden))))
    \<and> (m_role n \<noteq> ''tool'' \<and> m_role k \<noteq> ''tool'' \<longrightarrow>
         (\<exists>pre n' mid k' post.
            messages (fst (processEvent rnd e (s, hidden))) = pre @ n' # mid @ k' # post
            \<and> m_id n' = m_id n \<and> m_id k' = m_id k \<and> m_id k \<notin> m_id ` set pre
            \<and> m_id ` set mid \<subseteq> m_id ` set B))"
proof -
  let ?N = "A @ n # B @ k # C"
  let ?ex = "set (map m_id (messages s))"
  let ?M = "map (mergeMessage ?N) (messages s)"
  let ?L = "insertedSnapshot ?N s"
  let ?F = "messages (fst (processEvent rnd e (s, hidden)))"
  have idsM: "m_id ` set ?M = ?ex" by (simp add: image_image mergeMessage_id)
  have L: "?L = insertNew ?N ?ex ?M" by (simp add: insertedSnapshot_def)
  have F: "?F = cleanedUp (pendingToolCalls s) ?L"
    using assms(1) by (simp add: processEvent_def EventType_defs onMessagesSnapshot_cleanedUp assms(2))
  have block: "\<exists>pre k' post. ?L = pre @ n # B @ k' # post
      \<and> m_id k' = m_id k \<and> m_id k \<notin> m_id ` set pre"
    unfolding L using assms(3) assms(4,5,6) assms(7) idsM by (intro insertNew_block) simp_all
  have known: "filter (\<lambda>m. m_id m \<in> m_id ` set (messages s)) ?L = ?M"
  proof -
    have "filter (\<lambda>m. m_id m \<in> ?ex) (insertNew ?N ?ex ?M) = filter (\<lambda>m. m_id m \<in> ?ex) ?M"
      by (rule insertNew_filter_ids) simp
    also have "\<dots> = ?M" using idsM by (intro filter_True) auto
    finally show ?thesis by (simp add: L)
  qed
  have notafter: "\<not> positionedAfter (m_id n) (m_id k) ?F"
  proof -
    have "distinct (map m_id (A @ n # B))" using assms(3) by auto
    from new_message_not_after_next_known [OF assms(1,2) this assms(4,6,7,5), of rnd]
    show ?thesis .
  qed
  have final: "\<exists>pre n' mid k' post. ?F = pre @ n' # mid @ k' # post
            \<and> m_id n' = m_id n \<and> m_id k' = m_id k \<and> m_id k \<notin> m_id ` set pre
            \<and> m_id ` set mid \<subseteq> m_id ` set B"
    if roles: "m_role n \<noteq> ''tool''" "m_role k \<noteq> ''tool''"
  proof -
    from block obtain pre k' post where b: "?L = pre @ n # B @ k' # post"
      "m_id k' = m_id k" "m_id k \<notin> m_id ` set pre" by blast
    have "k' \<in> set (filter (\<lambda>m. m_id m \<in> m_id ` set (messages s)) ?L)"
      using assms(6) b(2) by (simp add: b(1))
    then have "k' \<in> set ?M" by (simp only: known)
    then obtain m where "k' = mergeMessage ?N m" "m_id m = m_id k"
      using b(2) by (auto simp: mergeMessage_id)
    then have "m_role k' = m_role k"
      using mergeMessage_role [OF assms(3), of k m] by simp
    with roles(2) have "m_role k' \<noteq> ''tool''" by simp
    from cleanedUp_block [OF roles(1) this, of pre "pendingToolCalls s" B post] b(2,3)
    show ?thesis unfolding F b(1) by simp
  qed
  from block known F notafter final show ?thesis by blast
qed

theorem C4_new_messages_before_next_known_witness:
  "normalizeSnapshotMessages (filter (\<lambda>m. m_id m \<notin> {})
      (e_messages (messagesSnapshot [snapshotMessage ''N1'' ''user'' ''question'',
         snapshotMessage ''N2'' ''assistant'' ''thinking'',
         snapshotMessage ''K2'' ''assistant'' ''answer'',
         snapshotMessage ''K1'' ''user'' ''hello''])))
     = [] @ snapshotMessage ''N1'' ''user'' ''question''
         # [snapshotMessage ''N2'' ''assistant'' ''thinking'']
         @ snapshotMessage ''K2'' ''assistant'' ''answer'' # [snapshotMessage ''K1'' ''user'' ''hello'']
   \<and> (\<exists>pre n' mid k' post.
        messages (fst (processEvent (''u1'', ''u2'')
          (messagesSnapshot [snapshotMessage ''N1'' ''user'' ''question'',
             snapshotMessage ''N2'' ''assistant'' ''thinking'',
             snapshotMessage ''K2'' ''assistant'' ''answer'',
             snapshotMessage ''K1'' ''user'' ''hello''])
          (initialState\<lparr> messages := [snapshotMessage ''K1'' ''user'' ''hello'',
             snapshotMessage ''K2'' ''assistant'' ''answer''] \<rparr>, {})))
          = pre @ n' # mid @ k' # post
        \<and> m_id n' = ''N1'' \<and> m_id k' = ''K2'' \<and> ''K2'' \<notin> m_id ` set pre
        \<and> m_id ` set mid \<subseteq> {''N2''})
   \<and> \<not> positionedAfter ''N1'' ''K2'' (messages (fst (processEvent (''u1'', ''u2'')
          (messagesSnapshot [snapshotMessage ''N1'' ''user'' ''question'',
             snapshotMessage ''N2'' ''assistant'' ''thinking'',
             snapshotMessage ''K2'' ''assistant'' ''answer'',
             snapshotMessage ''K1'' ''user'' ''hello''])
          (initialState\<lparr> messages := [snapshotMessage ''K1'' ''user'' ''hello'',
             snapshotMessage ''K2'' ''assistant'' ''answer''] \<rparr>, {}))))
   \<and> map m_id (messages (fst (processEvent (''u1'', ''u2'')
          (messagesSnapshot [snapshotMessage ''N1'' ''user'' ''question'',
             snapshotMessage ''N2'' ''assistant'' ''thinking'',
             snapshotMessage ''K2'' ''assistant'' ''answer'',
             snapshotMessage ''K1'' ''user'' ''hello''])
          (initialState\<lparr> messages := [snapshotMessage ''K1'' ''user'' ''hello'',
             snapshotMessage ''K2'' ''assistant'' ''answer''] \<rparr>, {}))))
     = [''K1'', ''N1'', ''N2'', ''K2'']"
proof -
  let ?n = "snapshotMessage ''N1'' ''user'' ''question''"
  let ?b = "snapshotMessage ''N2'' ''assistant'' ''thinking''"
  let ?k = "snapshotMessage ''K2'' ''assistant'' ''answer''"
  let ?c = "snapshotMessage ''K1'' ''user'' ''hello''"
  let ?e = "messagesSnapshot [?n, ?b, ?k, ?c]"
  let ?s = "initialState\<lparr> messages := [?c, ?k] \<rparr>"
  have ids: "m_id ?n = ''N1''" "m_id ?b = ''N2''" "m_id ?k = ''K2''" "m_id ?c = ''K1''"
    by (simp_all add: event_defs js_defs)
  have roles: "m_role ?n \<noteq> ''tool'' \<and> m_role ?k \<noteq> ''tool''" by (simp add: event_defs js_defs)
  have h1: "e_type ?e = MESSAGES_SNAPSHOT" by (simp add: event_defs)
  have h2: "normalizeSnapshotMessages (filter (\<lambda>m. m_id m \<notin> {}) (e_messages ?e))
      = [] @ ?n # [?b] @ ?k # [?c]" by code_simp
  have h3: "distinct (map m_id ([] @ ?n # [?b] @ ?k # [?c]))" by (simp add: ids)
  have h4: "m_id ?n \<notin> m_id ` set (messages ?s)" by (simp add: ids)
  have h5: "\<forall>b \<in> set [?b]. m_id b \<notin> m_id ` set (messages ?s)" by (simp add: ids)
  have h6: "m_id ?k \<in> m_id ` set (messages ?s)" by simp
  have h7: "m_id ?k \<noteq> []" by (simp add: ids)
  have v: "map m_id (messages (fst (processEvent (''u1'', ''u2'') ?e (?s, {}))))
      = [''K1'', ''N1'', ''N2'', ''K2'']"
    by code_simp
  note t = C4_new_messages_before_next_known [OF h1 h2 h3 h4 h5 h6 h7, of "(''u1'', ''u2'')"]
  from t [THEN conjunct2, THEN conjunct2, THEN conjunct2, THEN conjunct2, THEN mp, OF roles]
  have "\<exists>pre n' mid k' post.
        messages (fst (processEvent (''u1'', ''u2'') ?e (?s, {}))) = pre @ n' # mid @ k' # post
        \<and> m_id n' = m_id ?n \<and> m_id k' = m_id ?k \<and> m_id ?k \<notin> m_id ` set pre
        \<and> m_id ` set mid \<subseteq> m_id ` set [?b]" .
  then have a: "\<exists>pre n' mid k' post.
        messages (fst (processEvent (''u1'', ''u2'') ?e (?s, {}))) = pre @ n' # mid @ k' # post
        \<and> m_id n' = ''N1'' \<and> m_id k' = ''K2'' \<and> ''K2'' \<notin> m_id ` set pre
        \<and> m_id ` set mid \<subseteq> {''N2''}"
    unfolding ids by (simp add: ids)
  from t [THEN conjunct2, THEN conjunct2, THEN conjunct2, THEN conjunct1]
  have "\<not> positionedAfter (m_id ?n) (m_id ?k)
      (messages (fst (processEvent (''u1'', ''u2'') ?e (?s, {}))))" .
  then have b: "\<not> positionedAfter ''N1'' ''K2''
      (messages (fst (processEvent (''u1'', ''u2'') ?e (?s, {}))))"
    unfolding ids .
  from h2 a b v show ?thesis by (intro conjI)
qed

theorem C4_ordering_counterexample:
  "map m_id (messages (fst (processEvents
      [((''u1'', ''u2''), messagesSnapshot [snapshotMessage ''k2'' ''assistant'' ''b'']),
       ((''u1'', ''u2''), messagesSnapshot [snapshotMessage ''K'' ''assistant'' ''a''])]
      (initialState, {})))) = [''k2'', ''K'']
   \<and> map m_id (messages (fst (processEvents
      [((''u1'', ''u2''), messagesSnapshot [snapshotMessage ''k2'' ''assistant'' ''b'']),
       ((''u1'', ''u2''), messagesSnapshot [snapshotMessage ''K'' ''assistant'' ''a'']),
       ((''u1'', ''u2''), messagesSnapshot [snapshotMessage ''K'' ''assistant'' ''a'',
          snapshotMessage ''N'' ''user'' ''q'', snapshotMessage ''k2'' ''assistant'' ''b''])]
      (initialState, {})))) = [''N'', ''k2'', ''K'']"
  by code_simp

subsection \<open>Messages snapshot: what normalization keeps\<close>

lemma sameButToolCalls_trans:
  "sameButToolCalls a b \<Longrightarrow> sameButToolCalls b c \<Longrightarrow> sameButToolCalls a c"
  by (auto simp: sameButToolCalls_def)

lemma list_all2_update_owner:
  assumes "list_all2 sameButToolCalls xs ms" and "findIndex (ownsToolCall t) ms = Some k"
  shows "list_all2 sameButToolCalls xs (ms[k := (ms ! k)\<lparr> m_toolCalls := tcs \<rparr>])"
proof -
  from findIndex_Some [OF assms(2)] have k: "k < length ms" and role: "m_role (ms ! k) = ''assistant''"
    by (auto simp: ownsToolCall_def)
  from assms(1) k have rel: "sameButToolCalls (xs ! k) (ms ! k)"
    by (simp add: list_all2_conv_all_nth)
  have "sameButToolCalls (xs ! k) ((ms ! k)\<lparr> m_toolCalls := tcs \<rparr>)"
    using rel role by (auto simp: sameButToolCalls_def)
  with assms(1) have "list_all2 sameButToolCalls (xs[k := xs ! k])
      (ms[k := (ms ! k)\<lparr> m_toolCalls := tcs \<rparr>])"
    by (rule list_all2_update_cong)
  then show ?thesis by simp
qed

lemma normalizeStep_rel:
  assumes "list_all2 sameButToolCalls xs (fst acc)"
  shows "list_all2 sameButToolCalls xs (fst (normalizeStep parentIds pri i acc))"
  using assms
  by (auto simp: normalizeStep_def Let_def list_all2_update_owner split: option.splits prod.splits)

lemma normalizeStep_removed:
  assumes "list_all2 sameButToolCalls xs (fst acc)" and "i < length xs"
    and "\<forall>j \<in> snd acc. j < length xs \<and> m_role (xs ! j) = ''tool''"
  shows "\<forall>j \<in> snd (normalizeStep parentIds pri i acc). j < length xs \<and> m_role (xs ! j) = ''tool''"
proof -
  from assms(1,2) have "sameButToolCalls (xs ! i) (fst acc ! i)"
    by (simp add: list_all2_conv_all_nth)
  then have role: "m_role (fst acc ! i) = m_role (xs ! i)" by (simp add: sameButToolCalls_def)
  show ?thesis
    using assms(2,3) role
    by (auto simp: normalizeStep_def Let_def split: option.splits prod.splits)
qed

lemma normalizeFold_rel:
  assumes "list_all2 sameButToolCalls xs (fst acc)"
    and "\<forall>i \<in> set is. i < length xs"
    and "\<forall>j \<in> snd acc. j < length xs \<and> m_role (xs ! j) = ''tool''"
  shows "list_all2 sameButToolCalls xs (fst (fold (normalizeStep parentIds pri) is acc))
    \<and> (\<forall>j \<in> snd (fold (normalizeStep parentIds pri) is acc).
          j < length xs \<and> m_role (xs ! j) = ''tool'')"
  using assms
proof (induction "is" arbitrary: acc)
  case Nil
  then show ?case by simp
next
  case (Cons i "is")
  have 1: "list_all2 sameButToolCalls xs (fst (normalizeStep parentIds pri i acc))"
    by (rule normalizeStep_rel [OF Cons.prems(1)])
  have 2: "\<forall>j \<in> snd (normalizeStep parentIds pri i acc). j < length xs \<and> m_role (xs ! j) = ''tool''"
    using Cons.prems by (intro normalizeStep_removed) auto
  from Cons.prems(2) have 3: "\<forall>i \<in> set is. i < length xs" by simp
  from Cons.IH [OF 1 3 2] show ?case by simp
qed

lemma filter_kept_enumerate:
  assumes "list_all2 sameButToolCalls xs ms"
    and "\<forall>j \<in> rm. n \<le> j \<and> j < n + length xs \<longrightarrow> m_role (xs ! (j - n)) = ''tool''"
    and "\<forall>x \<in> set xs. m_id x = u \<longrightarrow> m_role x \<noteq> ''assistant'' \<and> m_role x \<noteq> ''tool''"
  shows "filter (\<lambda>m. m_id m = u) (map snd (filter (\<lambda>(idx, m). idx \<notin> rm) (enumerate n ms)))
       = filter (\<lambda>m. m_id m = u) xs"
  using assms
proof (induction xs ms arbitrary: n rule: list_all2_induct)
  case Nil
  show ?case by simp
next
  case (Cons a as b bs)
  have rest: "\<forall>j \<in> rm. Suc n \<le> j \<and> j < Suc n + length as \<longrightarrow> m_role (as ! (j - Suc n)) = ''tool''"
  proof (intro ballI impI)
    fix j assume j: "j \<in> rm" "Suc n \<le> j \<and> j < Suc n + length as"
    then have "m_role ((a # as) ! (j - n)) = ''tool''" using Cons.prems(1) by auto
    moreover from j have "j - n = Suc (j - Suc n)" by arith
    ultimately show "m_role (as ! (j - Suc n)) = ''tool''" by simp
  qed
  have IH: "filter (\<lambda>m. m_id m = u)
      (map snd (filter (\<lambda>(idx, m). idx \<notin> rm) (enumerate (Suc n) bs)))
       = filter (\<lambda>m. m_id m = u) as"
    using Cons.prems(2) by (intro Cons.IH rest) auto
  show ?case
  proof (cases "m_id a = u")
    case True
    with Cons.prems(2) have role: "m_role a \<noteq> ''assistant''" "m_role a \<noteq> ''tool''" by auto
    with Cons.hyps(1) have ba: "b = a" by (simp add: sameButToolCalls_def)
    have "n \<notin> rm"
    proof
      assume "n \<in> rm"
      with Cons.prems(1) have "m_role ((a # as) ! (n - n)) = ''tool''" by auto
      with role show False by simp
    qed
    with True ba IH show ?thesis by simp
  next
    case False
    with Cons.hyps(1) have "m_id b \<noteq> u" by (simp add: sameButToolCalls_def)
    with False IH show ?thesis by simp
  qed
qed

lemma normalize_keeps_plain:
  assumes "\<forall>x \<in> set xs. m_id x = u \<longrightarrow> m_role x \<noteq> ''assistant'' \<and> m_role x \<noteq> ''tool''"
  shows "filter (\<lambda>m. m_id m = u) (normalizeSnapshotMessages xs) = filter (\<lambda>m. m_id m = u) xs"
proof (cases "parentToolCallIdsOf xs = []")
  case True
  then show ?thesis by (simp add: normalizeSnapshotMessages_def)
next
  case False
  let ?r = "fold (normalizeStep (parentToolCallIdsOf xs)
      (parentResultIndexOf (parentToolCallIdsOf xs) xs)) [0 ..< length xs] (xs, {})"
  have refl: "list_all2 sameButToolCalls xs (fst (xs, {}))"
    by (simp add: list_all2_conv_all_nth sameButToolCalls_def)
  have "list_all2 sameButToolCalls xs (fst ?r)
    \<and> (\<forall>j \<in> snd ?r. j < length xs \<and> m_role (xs ! j) = ''tool'')"
    by (rule normalizeFold_rel [OF refl]) simp_all
  then have rel: "list_all2 sameButToolCalls xs (fst ?r)"
    and rm: "\<forall>j \<in> snd ?r. 0 \<le> j \<and> j < 0 + length xs \<longrightarrow> m_role (xs ! (j - 0)) = ''tool''"
    by simp_all
  have "filter (\<lambda>m. m_id m = u)
      (map snd (filter (\<lambda>(idx, m). idx \<notin> snd ?r) (enumerate 0 (fst ?r))))
       = filter (\<lambda>m. m_id m = u) xs"
    by (rule filter_kept_enumerate [OF rel rm assms])
  with False show ?thesis by (simp add: normalizeSnapshotMessages_def Let_def)
qed

subsection \<open>Messages snapshot after sendMessage\<close>

lemma insertNew_filter_known:
  assumes "u \<in> ex"
  shows "filter (\<lambda>m. m_id m = u) (insertNew N ex M) = filter (\<lambda>m. m_id m = u) M"
  using insertNew_filter_ids [of "{u}" ex N M] assms by simp

text \<open>The entry of the sent message under the operations on the list.\<close>

lemma sentEntry_iff:
  "sentEntry u c ms \<longleftrightarrow>
     (\<exists>x. filter (\<lambda>m. m_id m = u) ms = [x] \<and> m_role x = ''user'' \<and> m_content x = Some c)"
  by (auto simp: sentEntry_def split: list.splits)

lemma sentEntry_append:
  "sentEntry u c ms \<Longrightarrow> m_id x \<noteq> u \<Longrightarrow> sentEntry u c (ms @ [x])"
  by (simp add: sentEntry_def)

lemma sentEntry_filter:
  "sentEntry u c ms \<Longrightarrow> i \<noteq> u \<Longrightarrow> sentEntry u c (filter (\<lambda>m. m_id m \<noteq> i) ms)"
proof -
  assume a: "sentEntry u c ms" "i \<noteq> u"
  have "filter (\<lambda>m. m_id m = u) (filter (\<lambda>m. m_id m \<noteq> i) ms) = filter (\<lambda>m. m_id m = u) ms"
    using a(2) by (auto intro: filter_cong)
  with a(1) show ?thesis by (simp add: sentEntry_def)
qed

lemma sentEntry_mem:
  assumes "sentEntry u c ms" and "m \<in> set ms" and "m_id m = u"
  shows "m_role m = ''user'' \<and> m_content m = Some c"
proof -
  from assms(1) obtain x where x: "filter (\<lambda>m. m_id m = u) ms = [x]"
    "m_role x = ''user''" "m_content x = Some c" by (auto simp: sentEntry_iff)
  from assms(2,3) have "m \<in> set (filter (\<lambda>m. m_id m = u) ms)" by simp
  then have "m = x" by (simp only: x(1)) simp
  with x(2,3) show ?thesis by simp
qed

lemma sentEntry_alt:
  "sentEntry u c ms \<longleftrightarrow>
     length (filter (\<lambda>i. i = u) (map m_id ms)) = 1
     \<and> (\<forall>m \<in> set ms. m_id m = u \<longrightarrow> m_role m = ''user'' \<and> m_content m = Some c)"
proof
  assume a: "sentEntry u c ms"
  then obtain x where x: "filter (\<lambda>m. m_id m = u) ms = [x]" by (auto simp: sentEntry_iff)
  have "filter (\<lambda>i. i = u) (map m_id ms) = map m_id (filter (\<lambda>m. m_id m = u) ms)"
    by (simp add: filter_map comp_def)
  then have "length (filter (\<lambda>i. i = u) (map m_id ms)) = 1" by (simp add: x)
  with sentEntry_mem [OF a] show "length (filter (\<lambda>i. i = u) (map m_id ms)) = 1
     \<and> (\<forall>m \<in> set ms. m_id m = u \<longrightarrow> m_role m = ''user'' \<and> m_content m = Some c)" by blast
next
  assume b: "length (filter (\<lambda>i. i = u) (map m_id ms)) = 1
     \<and> (\<forall>m \<in> set ms. m_id m = u \<longrightarrow> m_role m = ''user'' \<and> m_content m = Some c)"
  have "filter (\<lambda>i. i = u) (map m_id ms) = map m_id (filter (\<lambda>m. m_id m = u) ms)"
    by (simp add: filter_map comp_def)
  with b have "length (filter (\<lambda>m. m_id m = u) ms) = 1" by simp
  then obtain x where x: "filter (\<lambda>m. m_id m = u) ms = [x]"
    by (cases "filter (\<lambda>m. m_id m = u) ms") auto
  then have "x \<in> set (filter (\<lambda>m. m_id m = u) ms)" by simp
  then have "x \<in> set ms" "m_id x = u" by simp_all
  with b x show "sentEntry u c ms" by (auto simp: sentEntry_iff)
qed

lemma sentEntry_update:
  assumes "sentEntry u c ms"
    and "m_id y = m_id (ms ! i)"
    and "m_id y = u \<longrightarrow> m_role y = ''user'' \<and> m_content y = Some c"
  shows "sentEntry u c (ms[i := y])"
proof -
  have "map m_id (ms[i := y]) = map m_id ms" using assms(2) by (rule map_id_update)
  moreover have "set (ms[i := y]) \<subseteq> insert y (set ms)" by (rule set_update_subset_insert)
  ultimately show ?thesis using assms(1,3) unfolding sentEntry_alt by auto
qed

lemma sentEntry_toolCalls:
  assumes "sentEntry u c ms"
  shows "sentEntry u c (ms[i := (ms ! i)\<lparr> m_toolCalls := t \<rparr>])"
proof (cases "i < length ms")
  case False
  with assms show ?thesis by (simp add: list_update_beyond)
next
  case True
  then have "ms ! i \<in> set ms" by simp
  from sentEntry_mem [OF assms this] show ?thesis
    by (intro sentEntry_update [OF assms]) simp_all
qed


text \<open>Every event that does not bring the id keeps the entry.\<close>

lemma or_else_other: "x \<noteq> Some u \<Longrightarrow> d \<noteq> u \<Longrightarrow> or_else x d \<noteq> u"
  by (auto simp: or_else_def split: option.splits)

lemma kept_frame:
  assumes "sentKept u c s" and "messages s' = messages s" and "currentMessage s' = currentMessage s"
  shows "sentKept u c s'"
  using assms by (simp add: notStreaming_def)

lemma kept_simple:
  assumes "sentKept u c s"
  shows "sentKept u c (onRunStarted e s)"
    "sentKept u c (onRunError e s)"
    "sentKept u c (onToolCallStart e s)"
    "sentKept u c (onToolCallArgs e s)"
    "sentKept u c (onStateSnapshot e s)"
    "sentKept u c (onStateDelta e s)"
    "sentKept u c (onActivitySnapshot e s)"
    "sentKept u c (onActivityDelta e s)"
    "sentKept u c (onStepStarted e s)"
    "sentKept u c (onStepFinished s)"
    "sentKept u c (onMeta e s)"
  by (rule kept_frame [OF assms];
      simp add: onRunStarted_def onRunError_def onToolCallStart_def onToolCallArgs_def
        onStateSnapshot_def onStateDelta_def onActivitySnapshot_def onActivityDelta_def
        onStepStarted_def onStepFinished_def onMeta_def Let_def split: option.splits)+

lemma kept_text_start:
  assumes "sentKept u c s" and "e_messageId e \<noteq> Some u"
  shows "sentKept u c (onTextMessageStart e s)"
  using assms by (simp add: onTextMessageStart_def notStreaming_def)

lemma kept_text_content:
  assumes "sentKept u c s"
  shows "sentKept u c (onTextMessageContent e s)"
  using assms by (auto simp: onTextMessageContent_def notStreaming_def split: option.splits)

lemma kept_run_finished:
  assumes "sentKept u c s" and "fst rnd \<noteq> u"
  shows "sentKept u c (onRunFinished rnd e s)"
proof -
  have "sentEntry u c (messages (onRunFinished rnd e s))"
  proof (cases "currentMessage s")
    case None
    with assms(1) show ?thesis by (simp add: onRunFinished_def)
  next
    case (Some cm)
    with assms(1) have "cm_id cm \<noteq> Some u" by (simp add: notStreaming_def)
    then have "or_else (cm_id cm) (fst rnd) \<noteq> u" using assms(2) by (rule or_else_other)
    then have "sentEntry u c (messages s @ [newMessage (or_else (cm_id cm) (fst rnd)) ''assistant''
        (cm_content cm) (Some (timestampOf e))])"
      using assms(1) by (intro sentEntry_append) (simp_all add: newMessage_def)
    with Some assms(1) show ?thesis by (simp add: onRunFinished_def Let_def)
  qed
  moreover have "notStreaming u (onRunFinished rnd e s)"
    by (simp add: onRunFinished_def Let_def notStreaming_def)
  ultimately show ?thesis by simp
qed

lemma kept_text_end:
  assumes "sentKept u c s" and "fst rnd \<noteq> u"
  shows "sentKept u c (onTextMessageEnd rnd hidden e s)"
proof -
  have cur: "notStreaming u (onTextMessageEnd rnd hidden e s)"
    by (simp add: onTextMessageEnd_def Let_def notStreaming_def split: option.splits)
  have "sentEntry u c (messages (onTextMessageEnd rnd hidden e s))"
  proof (cases "currentMessage s")
    case None
    with assms(1) show ?thesis by (simp add: onTextMessageEnd_def)
  next
    case (Some cm)
    let ?i = "or_else (cm_id cm) (fst rnd)"
    from Some assms(1) have "cm_id cm \<noteq> Some u" by (simp add: notStreaming_def)
    then have i: "?i \<noteq> u" using assms(2) by (rule or_else_other)
    have app: "sentEntry u c (messages s @ [newMessage ?i r (cm_content cm) ts])" for r ts
      using assms(1) i by (intro sentEntry_append) (simp_all add: newMessage_def)
    have upd: "sentEntry u c ((messages s)[k := (messages s ! k)\<lparr> m_content := x \<rparr>])"
      if "findIndex (\<lambda>m. m_id m = ?i) (messages s) = Some k" for k x
    proof (rule sentEntry_update)
      show "sentEntry u c (messages s)" using assms(1) by simp
      show "m_id ((messages s ! k)\<lparr> m_content := x \<rparr>) = m_id (messages s ! k)" by simp
      from findIndex_Some [OF that] i
      show "m_id ((messages s ! k)\<lparr> m_content := x \<rparr>) = u \<longrightarrow>
        m_role ((messages s ! k)\<lparr> m_content := x \<rparr>) = ''user''
        \<and> m_content ((messages s ! k)\<lparr> m_content := x \<rparr>) = Some c" by simp
    qed
    show ?thesis
      using Some assms(1) app upd
      by (simp add: onTextMessageEnd_def Let_def split: option.splits)
  qed
  with cur show ?thesis by simp
qed

lemma kept_tool_result:
  assumes "sentKept u c s"
  shows "sentKept u c (onToolCallResult e s)"
proof -
  have "notStreaming u (onToolCallResult e s)"
    using assms by (simp add: onToolCallResult_def Let_def notStreaming_def split: option.splits)
  moreover have "sentEntry u c (messages (onToolCallResult e s))"
    using assms sentEntry_toolCalls [of u c "messages s"]
    by (simp add: onToolCallResult_def Let_def split: option.splits)
  ultimately show ?thesis by simp
qed

lemma rawBrings_no:
  "\<not> rawBrings u (Some d) \<Longrightarrow> r_messageId d \<noteq> Some u \<and> r_id d \<noteq> Some u"
  by (simp add: rawBrings_def)

lemma kept_raw:
  assumes "sentKept u c s" and "\<not> bringsId u rnd e"
  shows "sentKept u c (fst (onRaw rnd e (s, hidden)))"
proof -
  from assms(2) have rnd: "fst rnd \<noteq> u" by (simp add: bringsId_def)
  have cur: "notStreaming u (fst (onRaw rnd e (s, hidden)))"
    using assms(1) by (simp add: onRaw_def Let_def notStreaming_def split: option.splits)
  have "sentEntry u c (messages (fst (onRaw rnd e (s, hidden))))"
  proof (cases "case e_event e of Some d \<Rightarrow> Some d | None \<Rightarrow> e_data e")
    case None
    with assms(1) show ?thesis by (simp add: onRaw_def Let_def)
  next
    case (Some d)
    with assms(2) have "\<not> rawBrings u (Some d)"
      by (auto simp: bringsId_def split: option.splits)
    from rawBrings_no [OF this] have d: "r_messageId d \<noteq> Some u" "r_id d \<noteq> Some u" by simp_all
    from d(1) have hid: "truthy (r_messageId d) \<Longrightarrow> the (r_messageId d) \<noteq> u"
      by (cases "r_messageId d") (simp_all add: truthy_def)
    have i: "or_else (r_id d) (fst rnd) \<noteq> u" using d(2) rnd by (rule or_else_other)
    have app: "sentEntry u c (messages s @ [newMessage (or_else (r_id d) (fst rnd)) r x ts])" for r x ts
      using assms(1) i by (intro sentEntry_append) (simp_all add: newMessage_def)
    have app': "sentEntry u c (messages s @ [(newMessage (fst rnd) r x ts)\<lparr> m_metadata := md \<rparr>])"
      for r x ts md
      using assms(1) rnd by (intro sentEntry_append) (simp_all add: newMessage_def)
    have fil: "truthy (r_messageId d) \<Longrightarrow>
        sentEntry u c (filter (\<lambda>m. m_id m \<noteq> the (r_messageId d)) (messages s))"
      using assms(1) hid by (intro sentEntry_filter) simp_all
    show ?thesis
      using Some assms(1) app app' fil by (simp add: onRaw_def Let_def)
  qed
  with cur show ?thesis by simp
qed


lemma clearCurrentToolCall_current [simp]:
  "currentMessage (clearCurrentToolCall t s) = currentMessage s"
  "messages (clearCurrentToolCall t s) = messages s"
  by (simp_all add: clearCurrentToolCall_def split: option.splits)

lemma kept_clear: "sentKept u c s \<Longrightarrow> sentKept u c (clearCurrentToolCall t s)"
  by (simp add: notStreaming_def)

lemma kept_buffer: "sentKept u c s \<Longrightarrow> sentKept u c (bufferChild p child s)"
  by (simp add: bufferChild_def notStreaming_def)

lemma kept_append_parent: "sentKept u c s \<Longrightarrow> sentKept u c (appendToParent i tc s)"
  using sentEntry_toolCalls [of u c "messages s"]
  by (simp add: appendToParent_def Let_def notStreaming_def)

lemma kept_attach:
  assumes "sentKept u c s" and "uuid \<noteq> u"
  shows "sentKept u c (attachToMessage uuid pm ts tc s)"
proof -
  have "notStreaming u (attachToMessage uuid pm ts tc s)"
    using assms(1) by (simp add: attachToMessage_def Let_def notStreaming_def split: option.splits)
  moreover have "sentEntry u c (messages (attachToMessage uuid pm ts tc s))"
  proof -
    have app: "sentEntry u c (messages s @ [toolMessage uuid (tc_id tc) tc (Some ts)])"
      using assms by (intro sentEntry_append) (simp_all add: toolMessage_def)
    show ?thesis
      using assms(1) app sentEntry_toolCalls [of u c "messages s"]
      by (simp add: attachToMessage_def Let_def split: option.splits)
  qed
  ultimately show ?thesis by simp
qed

lemma kept_tool_end:
  assumes "sentKept u c s" and "fst rnd \<noteq> u" and "snd rnd \<noteq> u"
  shows "sentKept u c (onToolCallEnd rnd e s)"
proof -
  let ?t = "endedToolCallId rnd e s"
  let ?s1 = "s\<lparr> pendingToolCalls := AList.delete ?t (pendingToolCalls s) \<rparr>"
  have s1: "sentKept u c ?s1" using assms(1) by (simp add: notStreaming_def)
  have uuid: "toolMessageUuid rnd e s \<noteq> u" using assms(2,3) by (simp add: toolMessageUuid_def)
  note a = kept_clear [OF s1]
  note b = kept_clear [OF kept_buffer [OF s1]]
  note c = kept_clear [OF kept_append_parent [OF s1]]
  note d = kept_attach [OF s1 uuid]
  show ?thesis
    unfolding onToolCallEnd_def Let_def
    using a b c d
    by (auto split: option.splits simp del: AGUIClientState.simps)
qed


lemma mergeMessage_sent:
  assumes "\<forall>x \<in> set N. m_id x = u \<longrightarrow> m_role x = ''user'' \<and> m_content x = Some c"
    and "m_id m = u" and "m_role m = ''user''" and "m_content m = Some c"
  shows "m_role (mergeMessage N m) = ''user'' \<and> m_content (mergeMessage N m) = Some c"
proof (cases "snapshotVersionOf N (m_id m)")
  case None
  with assms(3,4) show ?thesis by (simp add: mergeMessage_def)
next
  case (Some v)
  from snapshotVersionOf_id [OF Some] assms(1,2) have "m_role v = ''user'' \<and> m_content v = Some c"
    by simp
  with Some assms(3) show ?thesis by (simp add: mergeMessage_def)
qed

lemma filter_map_id:
  assumes "\<And>m. m_id (g m) = m_id m"
  shows "filter (\<lambda>m. m_id m = u) (map g ms) = map g (filter (\<lambda>m. m_id m = u) ms)"
  by (simp add: filter_map comp_def assms)

lemma kept_snapshot:
  assumes "sentKept u c s" and "echoesSent u c e"
  shows "sentKept u c (onMessagesSnapshot hidden e s)"
proof -
  let ?Q = "\<lambda>m. m_id m = u"
  let ?vis = "filter (\<lambda>m. m_id m \<notin> hidden) (e_messages e)"
  let ?N = "normalizeSnapshotMessages ?vis"
  let ?ex = "set (map m_id (messages s))"
  let ?M = "map (mergeMessage ?N) (messages s)"
  let ?L = "insertNew ?N ?ex ?M"
  let ?r = "recoverNames (toolNameMapOf ?L (pendingToolCalls s))"
  let ?keep = "keepMessage (nestedToolCallIdsOf (map ?r ?L))"
  from assms(1) obtain x where x: "filter ?Q (messages s) = [x]"
    "m_role x = ''user''" "m_content x = Some c" by (auto simp: sentEntry_iff)
  have xu: "m_id x = u" using filter_single_holds [OF x(1)] .
  have echo: "\<forall>y \<in> set ?vis. m_id y = u \<longrightarrow> m_role y = ''user'' \<and> m_content y = Some c"
    using assms(2) by (simp add: echoesSent_def list_all_iff)
  then have plain: "\<forall>y \<in> set ?vis. m_id y = u \<longrightarrow> m_role y \<noteq> ''assistant'' \<and> m_role y \<noteq> ''tool''"
    by auto
  have N: "\<forall>y \<in> set ?N. m_id y = u \<longrightarrow> m_role y = ''user'' \<and> m_content y = Some c"
  proof (intro ballI impI)
    fix y assume "y \<in> set ?N" "m_id y = u"
    then have "y \<in> set (filter ?Q ?N)" by simp
    then have "y \<in> set (filter ?Q ?vis)" by (simp only: normalize_keeps_plain [OF plain])
    then have "y \<in> set ?vis" "m_id y = u" by auto
    with echo show "m_role y = ''user'' \<and> m_content y = Some c" by blast
  qed
  let ?x' = "mergeMessage ?N x"
  have x': "m_role ?x' = ''user''" "m_content ?x' = Some c"
    using mergeMessage_sent [OF N xu x(2,3)] by simp_all
  have "filter ?Q ?M = map (mergeMessage ?N) (filter ?Q (messages s))"
    by (rule filter_map_id) (rule mergeMessage_id)
  then have M: "filter ?Q ?M = [?x']" by (simp add: x(1))
  have "x \<in> set (filter ?Q (messages s))" by (simp add: x(1))
  then have "u \<in> ?ex" using xu by auto
  then have L: "filter ?Q ?L = [?x']"
    using insertNew_filter_known [of u ?ex ?N ?M] by (simp only: M)
  have "filter ?Q (map ?r ?L) = map ?r (filter ?Q ?L)"
    by (rule filter_map_id) (rule recoverNames_id)
  also have "\<dots> = [?x']"
    using x'(1) by (simp only: L list.map) (simp add: recoverNames_plain)
  finally have named: "filter ?Q (map ?r ?L) = [?x']" .
  have "filter ?Q (filter ?keep (map ?r ?L)) = filter ?keep (filter ?Q (map ?r ?L))"
    by (simp add: conj_commute)
  also have "\<dots> = [?x']"
    using x'(1) by (simp only: named) (simp add: keepMessage_plain)
  finally have "filter ?Q (filter ?keep (map ?r ?L)) = [?x']" .
  moreover have "messages (onMessagesSnapshot hidden e s) = filter ?keep (map ?r ?L)"
    by (simp add: onMessagesSnapshot_messages Let_def)
  ultimately have "filter ?Q (messages (onMessagesSnapshot hidden e s)) = [?x']"
    by (simp only:)
  with x' have "sentEntry u c (messages (onMessagesSnapshot hidden e s))"
    by (auto simp: sentEntry_iff)
  moreover have "notStreaming u (onMessagesSnapshot hidden e s)"
    using assms(1) by (simp add: onMessagesSnapshot_def Let_def notStreaming_def)
  ultimately show ?thesis by simp
qed

lemma kept_event:
  assumes "sentKept u c s" and "\<not> bringsId u rnd e" and "echoesSent u c e"
  shows "sentKept u c (fst (processEvent rnd e (s, hidden)))"
proof -
  from assms(2) have rnd: "fst rnd \<noteq> u" "snd rnd \<noteq> u" and mid: "e_messageId e \<noteq> Some u"
    by (simp_all add: bringsId_def)
  show ?thesis
    using kept_simple [OF assms(1)] kept_text_start [OF assms(1) mid]
      kept_text_content [OF assms(1)] kept_run_finished [OF assms(1) rnd(1)]
      kept_text_end [OF assms(1) rnd(1)] kept_tool_end [OF assms(1) rnd]
      kept_tool_result [OF assms(1)] kept_raw [OF assms(1,2)] kept_snapshot [OF assms(1,3)]
      assms(1)
    by (simp add: processEvent_def Let_def)
qed

lemma kept_events:
  assumes "sentKept u c (fst sh)"
    and "\<forall>(rnd, e) \<in> set es. \<not> bringsId u rnd e \<and> echoesSent u c e"
  shows "sentKept u c (fst (processEvents es sh))"
  using assms
proof (induction es arbitrary: sh)
  case Nil
  then show ?case by simp
next
  case (Cons re es)
  obtain rnd e where re: "re = (rnd, e)" by (cases re)
  obtain s hidden where sh: "sh = (s, hidden)" by (cases sh)
  from Cons.prems have "sentKept u c (fst (processEvent rnd e (s, hidden)))"
    by (intro kept_event) (simp_all add: re sh)
  moreover from Cons.prems(2) have "\<forall>(rnd, e) \<in> set es. \<not> bringsId u rnd e \<and> echoesSent u c e"
    by simp
  ultimately have "sentKept u c (fst (processEvents es (processEvent rnd e sh)))"
    by (intro Cons.IH) (simp_all add: sh)
  then show ?case by (simp add: re)
qed


text \<open>Where a new message of the snapshot stands with respect to the entry.\<close>

lemma positionedAfter_filter:
  assumes "\<forall>m \<in> set ms. m_id m = a \<or> m_id m = b \<longrightarrow> P m"
  shows "positionedAfter a b (filter P ms) = positionedAfter a b ms"
  using assms
proof (induction ms)
  case Nil
  show ?case by simp
next
  case (Cons m ms)
  then have IH: "positionedAfter a b (filter P ms) = positionedAfter a b ms" by simp
  show ?case
  proof (cases "m_id m = b")
    case True
    with Cons.prems have "P m" by simp
    have "a \<in> m_id ` set (filter P ms) \<longleftrightarrow> a \<in> m_id ` set ms"
      using Cons.prems by auto
    with True \<open>P m\<close> show ?thesis by (simp add: positionedAfter_def)
  next
    case False
    with IH show ?thesis by (simp add: positionedAfter_def)
  qed
qed

lemma positionedAfter_map:
  assumes "\<And>m. m_id (g m) = m_id m"
  shows "positionedAfter a b (map g ms) = positionedAfter a b ms"
  unfolding positionedAfter_def using dropWhile_map_ids [of g b ms] assms by simp

lemma positionedAfter_proj:
  "positionedAfter a b ms
     = positionedAfter a b (filter (\<lambda>m. m_id m \<in> {a, b}) ms)"
  by (rule positionedAfter_filter [symmetric]) simp

lemma insertNew_positioned:
  assumes "a \<in> ex" and "b \<in> ex"
  shows "positionedAfter a b (insertNew N ex L) = positionedAfter a b L"
proof -
  have "filter (\<lambda>m. m_id m \<in> {a, b}) (insertNew N ex L) = filter (\<lambda>m. m_id m \<in> {a, b}) L"
    using assms by (intro insertNew_filter_ids) simp
  then show ?thesis
    using positionedAfter_proj [of a b "insertNew N ex L"] positionedAfter_proj [of a b L] by simp
qed

lemma spliceBefore_positioned:
  assumes "m_id x \<noteq> a" and "m_id x \<noteq> b"
  shows "positionedAfter a b (spliceBefore ib x L) = positionedAfter a b L"
proof -
  have "filter (\<lambda>m. m_id m \<in> {a, b}) (spliceBefore ib x L) = filter (\<lambda>m. m_id m \<in> {a, b}) L"
    using assms by (intro spliceBefore_filter) simp
  then show ?thesis
    using positionedAfter_proj [of a b "spliceBefore ib x L"] positionedAfter_proj [of a b L]
    by simp
qed

lemma positionedAfter_appended:
  "u \<in> m_id ` set L \<Longrightarrow> positionedAfter (m_id r) u (L @ [r])"
proof -
  assume "u \<in> m_id ` set L"
  then obtain x where "x \<in> set L" "\<not> m_id x \<noteq> u" by auto
  then have "dropWhile (\<lambda>m. m_id m \<noteq> u) (L @ [r]) = dropWhile (\<lambda>m. m_id m \<noteq> u) L @ [r]"
    by (rule dropWhile_append1)
  then show ?thesis by (simp add: positionedAfter_def)
qed

lemma positionedAfter_inserted:
  assumes "findIndex (\<lambda>m. m_id m = kid) L = Some idx"
    and "length (filter (\<lambda>m. m_id m = u) L) = 1"
    and "m_id r \<notin> m_id ` set L"
  shows "positionedAfter (m_id r) u (take idx L @ r # drop idx L)
     \<longleftrightarrow> \<not> positionedAfter u kid L"
proof -
  let ?T = "take idx L" and ?D = "drop idx L"
  from findIndex_Some [OF assms(1)] have il: "idx < length L" and k: "m_id (L ! idx) = kid"
    and before: "\<forall>x \<in> set ?T. m_id x \<noteq> kid" by simp_all
  have D: "?D = L ! idx # drop (Suc idx) L" using il by (rule Cons_nth_drop_Suc [symmetric])
  have "dropWhile (\<lambda>m. m_id m \<noteq> kid) (?T @ ?D) = dropWhile (\<lambda>m. m_id m \<noteq> kid) ?D"
    using before by (intro dropWhile_append2) simp
  also have "\<dots> = ?D" using k by (subst (1 2) D) simp
  finally have C: "positionedAfter u kid L \<longleftrightarrow> u \<in> m_id ` set ?D"
    by (simp add: positionedAfter_def)
  have "filter (\<lambda>m. m_id m = u) L
      = filter (\<lambda>m. m_id m = u) ?T @ filter (\<lambda>m. m_id m = u) ?D"
    by (metis append_take_drop_id filter_append)
  then have "length (filter (\<lambda>m. m_id m = u) L)
      = length (filter (\<lambda>m. m_id m = u) ?T) + length (filter (\<lambda>m. m_id m = u) ?D)"
    by (simp only: length_append)
  with assms(2)
  have one: "length (filter (\<lambda>m. m_id m = u) ?T) + length (filter (\<lambda>m. m_id m = u) ?D) = 1"
    by (simp only:)
  have mem: "u \<in> m_id ` set X \<longleftrightarrow> 0 < length (filter (\<lambda>m. m_id m = u) X)" for X
    by (auto simp: filter_empty_conv image_iff)
  from one have xor: "u \<in> m_id ` set ?T \<longleftrightarrow> u \<notin> m_id ` set ?D"
    unfolding mem by arith
  have ru: "m_id r \<noteq> u"
  proof
    assume "m_id r = u"
    with assms(3) have "filter (\<lambda>m. m_id m = u) L = []"
      by (auto simp: filter_empty_conv image_iff)
    with assms(2) show False by simp
  qed
  show ?thesis
  proof (cases "u \<in> m_id ` set ?T")
    case True
    then obtain x where "x \<in> set ?T" "\<not> m_id x \<noteq> u" by auto
    then have "dropWhile (\<lambda>m. m_id m \<noteq> u) (?T @ r # ?D)
        = dropWhile (\<lambda>m. m_id m \<noteq> u) ?T @ r # ?D"
      by (rule dropWhile_append1)
    then have "positionedAfter (m_id r) u (?T @ r # ?D)" by (simp add: positionedAfter_def)
    with True xor C show ?thesis by simp
  next
    case False
    then have "dropWhile (\<lambda>m. m_id m \<noteq> u) (?T @ r # ?D)
        = dropWhile (\<lambda>m. m_id m \<noteq> u) (r # ?D)"
      by (intro dropWhile_append2) auto
    also have "\<dots> = dropWhile (\<lambda>m. m_id m \<noteq> u) ?D" using ru by simp
    finally have "set (dropWhile (\<lambda>m. m_id m \<noteq> u) (?T @ r # ?D)) \<subseteq> set L"
      by (auto dest: set_dropWhileD in_set_dropD)
    with assms(3) have "\<not> positionedAfter (m_id r) u (?T @ r # ?D)"
      by (auto simp: positionedAfter_def)
    with False xor C show ?thesis by simp
  qed
qed


lemma find_same:
  "\<forall>x \<in> set xs. P x = Q x \<Longrightarrow> find P xs = find Q xs"
  by (induction xs) auto

lemma insertNew_after_entry:
  assumes "distinct (map m_id (A @ r # R))" and "m_id r \<notin> ex" and "u \<in> ex"
    and "m_id ` set L = ex" and "length (filter (\<lambda>m. m_id m = u) L) = 1"
  shows "positionedAfter (m_id r) u (insertNew (A @ r # R) ex L)
     \<longleftrightarrow> (case find (\<lambda>m. m_id m \<in> ex) R of
            None \<Rightarrow> True
          | Some k \<Rightarrow> m_id k = [] \<or> \<not> positionedAfter u (m_id k) L)"
  using assms
proof (induction A arbitrary: ex L)
  case Nil
  let ?f = "find (\<lambda>m. m_id m \<in> ex) R"
  let ?L1 = "spliceBefore (map_option m_id ?f) r L"
  have "positionedAfter (m_id r) u (insertNew ([] @ r # R) ex L)
      = positionedAfter (m_id r) u (insertNew R (insert (m_id r) ex) ?L1)"
    using insertNew_new [OF Nil.prems(2), of R L] by simp
  also have "\<dots> = positionedAfter (m_id r) u ?L1"
    using Nil.prems(3) by (intro insertNew_positioned) simp_all
  finally have step: "positionedAfter (m_id r) u (insertNew ([] @ r # R) ex L)
      = positionedAfter (m_id r) u ?L1" .
  have uL: "u \<in> m_id ` set L" using Nil.prems(3,4) by simp
  have rL: "m_id r \<notin> m_id ` set L" using Nil.prems(2,4) by simp
  show ?case
  proof (cases ?f)
    case None
    then have "?L1 = L @ [r]" by (simp add: spliceBefore_def truthy_def)
    with positionedAfter_appended [OF uL, of r] None step show ?thesis by simp
  next
    case (Some k)
    show ?thesis
    proof (cases "m_id k = []")
      case True
      with Some have "?L1 = L @ [r]" by (simp add: spliceBefore_def truthy_def)
      with positionedAfter_appended [OF uL, of r] Some True step show ?thesis by simp
    next
      case False
      from find_Some_mem [OF Some] have "m_id k \<in> ex" by simp
      with Nil.prems(4) have "\<not> (\<forall>x \<in> set L. m_id x \<noteq> m_id k)" by (auto simp: image_iff)
      then obtain idx where idx: "findIndex (\<lambda>m. m_id m = m_id k) L = Some idx"
        using findIndex_None [of "\<lambda>m. m_id m = m_id k" L]
        by (cases "findIndex (\<lambda>m. m_id m = m_id k) L") auto
      with Some False have "?L1 = take idx L @ r # drop idx L"
        by (simp add: spliceBefore_def truthy_def)
      with positionedAfter_inserted [OF idx Nil.prems(5) rL] Some False step
      show ?thesis by simp
    qed
  qed
next
  case (Cons a A)
  have d: "distinct (map m_id (A @ r # R))" using Cons.prems(1) by simp
  show ?case
  proof (cases "m_id a \<in> ex")
    case True
    with Cons.IH [OF d Cons.prems(2,3,4,5)] show ?thesis by simp
  next
    case False
    let ?ex' = "insert (m_id a) ex"
    let ?L' = "spliceBefore (map_option m_id (find (\<lambda>m. m_id m \<in> ex) (A @ r # R))) a L"
    have au: "m_id a \<noteq> u" using False Cons.prems(3) by auto
    have "positionedAfter (m_id r) u (insertNew (A @ r # R) ?ex' ?L')
     \<longleftrightarrow> (case find (\<lambda>m. m_id m \<in> ?ex') R of
            None \<Rightarrow> True
          | Some k \<Rightarrow> m_id k = [] \<or> \<not> positionedAfter u (m_id k) ?L')"
    proof (rule Cons.IH [OF d])
      show "m_id r \<notin> ?ex'" using Cons.prems(1,2) by auto
      show "u \<in> ?ex'" using Cons.prems(3) by simp
      show "m_id ` set ?L' = ?ex'" using Cons.prems(4) by (simp add: spliceBefore_set)
      have "filter (\<lambda>m. m_id m = u) ?L' = filter (\<lambda>m. m_id m = u) L"
        using au by (intro spliceBefore_filter) simp
      with Cons.prems(5) show "length (filter (\<lambda>m. m_id m = u) ?L') = 1" by simp
    qed
    moreover have "find (\<lambda>m. m_id m \<in> ?ex') R = find (\<lambda>m. m_id m \<in> ex) R"
      using Cons.prems(1) by (intro find_same) (auto simp: image_iff)
    moreover have "positionedAfter u (m_id k) ?L' = positionedAfter u (m_id k) L"
      if "find (\<lambda>m. m_id m \<in> ex) R = Some k" for k
    proof (rule spliceBefore_positioned)
      show "m_id a \<noteq> u" by fact
      from find_Some_mem [OF that] False show "m_id a \<noteq> m_id k" by auto
    qed
    ultimately have "positionedAfter (m_id r) u (insertNew (A @ r # R) ?ex' ?L')
     \<longleftrightarrow> (case find (\<lambda>m. m_id m \<in> ex) R of
            None \<Rightarrow> True
          | Some k \<Rightarrow> m_id k = [] \<or> \<not> positionedAfter u (m_id k) L)"
      by (simp split: option.splits)
    then show ?thesis using insertNew_new [OF False, of "A @ r # R" L] by simp
  qed
qed


lemma insertNew_set: "set (insertNew N ex M) \<subseteq> set N \<union> set M"
proof (induction N arbitrary: ex M)
  case Nil
  show ?case by simp
next
  case (Cons msg rest)
  show ?case
  proof (cases "m_id msg \<in> ex")
    case True
    with Cons.IH [of ex M] show ?thesis by auto
  next
    case False
    from Cons.IH [of "insert (m_id msg) ex"
        "spliceBefore (map_option m_id (find (\<lambda>m. m_id m \<in> ex) rest)) msg M"]
    show ?thesis unfolding insertNew_new [OF False] by (auto simp: spliceBefore_set)
  qed
qed

lemma normalized_echo:
  assumes "echoesSent u c e"
  shows "\<forall>y \<in> set (normalizeSnapshotMessages (filter (\<lambda>m. m_id m \<notin> hidden) (e_messages e))).
     m_id y = u \<longrightarrow> m_role y = ''user'' \<and> m_content y = Some c"
proof (intro ballI impI)
  let ?vis = "filter (\<lambda>m. m_id m \<notin> hidden) (e_messages e)"
  fix y assume "y \<in> set (normalizeSnapshotMessages ?vis)" "m_id y = u"
  have echo: "\<forall>y \<in> set ?vis. m_id y = u \<longrightarrow> m_role y = ''user'' \<and> m_content y = Some c"
    using assms by (simp add: echoesSent_def list_all_iff)
  then have plain: "\<forall>y \<in> set ?vis. m_id y = u \<longrightarrow> m_role y \<noteq> ''assistant'' \<and> m_role y \<noteq> ''tool''"
    by auto
  from \<open>y \<in> set (normalizeSnapshotMessages ?vis)\<close> \<open>m_id y = u\<close>
  have "y \<in> set (filter (\<lambda>m. m_id m = u) (normalizeSnapshotMessages ?vis))" by simp
  then have "y \<in> set (filter (\<lambda>m. m_id m = u) ?vis)" by (simp only: normalize_keeps_plain [OF plain])
  then have "y \<in> set ?vis" "m_id y = u" by auto
  with echo show "m_role y = ''user'' \<and> m_content y = Some c" by blast
qed

lemma snapshot_reply_position:
  assumes "sentEntry u c (messages s)"
    and "\<forall>y \<in> set (A @ r # R). m_id y = u \<longrightarrow> m_role y = ''user'' \<and> m_content y = Some c"
    and "distinct (map m_id (A @ r # R))"
    and "m_id r \<notin> m_id ` set (messages s)" and "m_role r \<noteq> ''tool''"
  shows "positionedAfter (m_id r) u (cleanedUp (pendingToolCalls s) (insertedSnapshot (A @ r # R) s))
     \<longleftrightarrow> (case find (\<lambda>m. m_id m \<in> m_id ` set (messages s)) R of
            None \<Rightarrow> True
          | Some k \<Rightarrow> m_id k = [] \<or> \<not> positionedAfter u (m_id k) (messages s))"
proof -
  let ?N = "A @ r # R"
  let ?ex = "m_id ` set (messages s)"
  let ?M = "map (mergeMessage ?N) (messages s)"
  let ?L = "insertNew ?N ?ex ?M"
  let ?rn = "recoverNames (toolNameMapOf ?L (pendingToolCalls s))"
  let ?keep = "keepMessage (nestedToolCallIdsOf (map ?rn ?L))"
  let ?Q = "\<lambda>m. m_id m = u"
  from assms(1) obtain x where x: "filter ?Q (messages s) = [x]"
    by (auto simp: sentEntry_iff)
  have xu: "m_id x = u" using filter_single_holds [OF x(1)] .
  have "x \<in> set (filter ?Q (messages s))" by (simp add: x(1))
  then have uex: "u \<in> ?ex" using xu by auto
  have idsM: "m_id ` set ?M = ?ex" by (simp add: image_image mergeMessage_id)
  have "filter ?Q ?M = map (mergeMessage ?N) (filter ?Q (messages s))"
    by (rule filter_map_id) (rule mergeMessage_id)
  then have oneM: "length (filter ?Q ?M) = 1" by (simp add: x(1))
  have inj: "inj_on m_id (set ?N)" using assms(3) by (simp only: distinct_map)
  have roles: "\<forall>m \<in> set ?L. m_id m = m_id r \<or> m_id m = u \<longrightarrow> m_role m \<noteq> ''tool''"
  proof (intro ballI impI)
    fix m assume m: "m \<in> set ?L" and id: "m_id m = m_id r \<or> m_id m = u"
    from m insertNew_set [of ?N ?ex ?M] have "m \<in> set ?N \<or> m \<in> set ?M" by auto
    then show "m_role m \<noteq> ''tool''"
    proof
      assume N: "m \<in> set ?N"
      from id show ?thesis
      proof
        assume "m_id m = m_id r"
        from inj_onD [OF inj this N] have "m = r" by simp
        with assms(5) show ?thesis by simp
      next
        assume "m_id m = u"
        with assms(2) N show ?thesis by auto
      qed
    next
      assume "m \<in> set ?M"
      then obtain m0 where m0: "m0 \<in> set (messages s)" "m = mergeMessage ?N m0" by auto
      then have idm: "m_id m = m_id m0" by (simp add: mergeMessage_id)
      from id show ?thesis
      proof
        assume "m_id m = m_id r"
        with idm m0(1) assms(4) show ?thesis by (auto simp: image_iff)
      next
        assume mu: "m_id m = u"
        with idm have "m_id m0 = u" by simp
        from sentEntry_mem [OF assms(1) m0(1) this] mergeMessage_sent [OF assms(2) this]
        show ?thesis by (simp add: m0(2))
      qed
    qed
  qed
  have kept: "\<forall>m \<in> set (map ?rn ?L). m_id m = m_id r \<or> m_id m = u \<longrightarrow> ?keep m"
    using roles by (auto simp: recoverNames_id recoverNames_role intro: keepMessage_plain)
  have "positionedAfter (m_id r) u (cleanedUp (pendingToolCalls s) (insertedSnapshot ?N s))
      = positionedAfter (m_id r) u (filter ?keep (map ?rn ?L))"
    by (simp add: cleanedUp_def insertedSnapshot_def Let_def)
  also have "\<dots> = positionedAfter (m_id r) u (map ?rn ?L)"
    by (rule positionedAfter_filter [OF kept])
  also have "\<dots> = positionedAfter (m_id r) u ?L"
    by (rule positionedAfter_map) (rule recoverNames_id)
  also have "\<dots> \<longleftrightarrow> (case find (\<lambda>m. m_id m \<in> ?ex) R of
            None \<Rightarrow> True
          | Some k \<Rightarrow> m_id k = [] \<or> \<not> positionedAfter u (m_id k) ?M)"
    by (rule insertNew_after_entry [OF assms(3,4) uex idsM oneM])
  also have "\<dots> \<longleftrightarrow> (case find (\<lambda>m. m_id m \<in> ?ex) R of
            None \<Rightarrow> True
          | Some k \<Rightarrow> m_id k = [] \<or> \<not> positionedAfter u (m_id k) (messages s))"
    using positionedAfter_map [of "mergeMessage ?N" u _ "messages s"]
    by (simp add: mergeMessage_id split: option.splits)
  finally show ?thesis .
qed

text \<open>
  Events that bring the id of the sent message do change its entry: after the marker that
  hides the id the entry is gone, also when a snapshot carries it again, and a streamed
  message with the id that is flushed by RUN_FINISHED makes a second entry.
\<close>

lemma reused_id_changes_entry:
  "messages (fst (processEvents
      [((''r1'', ''r2''), rawHidden ''u0''),
       ((''r3'', ''r4''), messagesSnapshot [snapshotMessage ''u0'' ''user'' ''hello''])]
      (sendMessage ''u0'' ''2026-01-01T00:00:00Z'' ''hello'' initialState, {}))) = []
   \<and> map m_id (messages (fst (processEvents
      [((''r1'', ''r2''), textMessageStart ''u0'' ''assistant''),
       ((''r3'', ''r4''), textMessageContent ''hi there''),
       ((''r5'', ''r6''), event RUN_FINISHED),
       ((''r7'', ''r8''), messagesSnapshot [snapshotMessage ''u0'' ''user'' ''hello''])]
      (sendMessage ''u0'' ''2026-01-01T00:00:00Z'' ''hello'' initialState, {}))))
     = [''u0'', ''u0'']"
  by code_simp

text \<open>
  C6. \<open>sendMessage\<close> appends one user message with the id \<open>u\<close> that
  \<open>crypto.randomUUID()\<close> returned before it sends the request; the id is fresh (no message
  of the state and no message being streamed has it). Let any events follow that do not
  bring the id \<open>u\<close> and whose snapshots carry it only on user messages with the sent
  content, and then a snapshot of that kind. After the merge the list has exactly one
  entry with the id, a user message with the sent content. The last part of the claim
  fails: a reply is not always placed behind the entry. A message \<open>r\<close> of the snapshot
  that is new to the list and not a tool message (the snapshot, after the hidden filter
  and the normalization, having distinct ids) stands behind the entry if no message of the
  list follows it in the snapshot, or the nearest such message has the empty id; otherwise
  it stands behind the entry exactly when the entry stood before the first message with
  the id of that nearest message, because the reply is inserted in front of that message.
\<close>

theorem C6_sent_message_merged_in_place:
  fixes es u now content s0 hidden and sh :: "AGUIClientState \<times> string set"
  defines "sh \<equiv> processEvents es (sendMessage u now content s0, hidden)"
  assumes "u \<notin> m_id ` set (messages s0)" and "notStreaming u s0"
    and "\<forall>(rnd', e') \<in> set es. \<not> bringsId u rnd' e' \<and> echoesSent u content e'"
    and "e_type e = MESSAGES_SNAPSHOT" and "echoesSent u content e"
  shows "messages (sendMessage u now content s0)
       = messages s0 @ [newMessage u ''user'' content (Some now)]
    \<and> (\<exists>x. filter (\<lambda>m. m_id m = u) (messages (fst (processEvent rnd e sh))) = [x]
          \<and> m_role x = ''user'' \<and> m_content x = Some content)
    \<and> (\<forall>A r R.
          normalizeSnapshotMessages (filter (\<lambda>m. m_id m \<notin> snd sh) (e_messages e)) = A @ r # R
          \<and> distinct (map m_id (A @ r # R))
          \<and> m_id r \<notin> m_id ` set (messages (fst sh)) \<and> m_role r \<noteq> ''tool'' \<longrightarrow>
          (positionedAfter (m_id r) u (messages (fst (processEvent rnd e sh)))
           \<longleftrightarrow> (case find (\<lambda>m. m_id m \<in> m_id ` set (messages (fst sh))) R of
                  None \<Rightarrow> True
                | Some k \<Rightarrow> m_id k = [] \<or> \<not> positionedAfter u (m_id k) (messages (fst sh)))))"
proof -
  let ?s1 = "sendMessage u now content s0"
  obtain s hid where s: "sh = (s, hid)" by (cases sh)
  have msgs1: "messages ?s1 = messages s0 @ [newMessage u ''user'' content (Some now)]"
    by (simp add: sendMessage_def)
  have "filter (\<lambda>m. m_id m = u) (messages s0) = []"
    using assms(2) by (auto simp: filter_empty_conv)
  then have "sentEntry u content (messages ?s1)"
    by (simp add: msgs1 sentEntry_def newMessage_def)
  moreover have "notStreaming u ?s1" using assms(3) by (simp add: sendMessage_def notStreaming_def)
  ultimately have "sentKept u content (fst (?s1, hidden))" by simp
  from kept_events [OF this assms(4)] have kept: "sentKept u content s"
    using s by (simp add: sh_def)
  have F: "messages (fst (processEvent rnd e (s, hid))) = messages (onMessagesSnapshot hid e s)"
    using assms(5) by (simp add: processEvent_def EventType_defs)
  from kept_snapshot [OF kept assms(6), of hid]
  have one: "\<exists>x. filter (\<lambda>m. m_id m = u) (messages (fst (processEvent rnd e (s, hid)))) = [x]
          \<and> m_role x = ''user'' \<and> m_content x = Some content"
    unfolding F by (simp add: sentEntry_iff)
  have pos: "positionedAfter (m_id r) u (messages (fst (processEvent rnd e (s, hid))))
           \<longleftrightarrow> (case find (\<lambda>m. m_id m \<in> m_id ` set (messages s)) R of
                  None \<Rightarrow> True
                | Some k \<Rightarrow> m_id k = [] \<or> \<not> positionedAfter u (m_id k) (messages s))"
    if N: "normalizeSnapshotMessages (filter (\<lambda>m. m_id m \<notin> hid) (e_messages e)) = A @ r # R"
      and d: "distinct (map m_id (A @ r # R))"
      and new: "m_id r \<notin> m_id ` set (messages s)" and role: "m_role r \<noteq> ''tool''"
    for A r R
  proof -
    have echo: "\<forall>y \<in> set (A @ r # R). m_id y = u \<longrightarrow> m_role y = ''user'' \<and> m_content y = Some content"
      using normalized_echo [OF assms(6), of hid] unfolding N .
    have "messages (onMessagesSnapshot hid e s)
        = cleanedUp (pendingToolCalls s) (insertedSnapshot (A @ r # R) s)"
      by (simp only: onMessagesSnapshot_cleanedUp N)
    with snapshot_reply_position [OF conjunct1 [OF kept] echo d new role]
    show ?thesis by (simp only: F)
  qed
  from msgs1 one pos show ?thesis unfolding s fst_conv snd_conv by blast
qed

theorem C6_sent_message_merged_in_place_witness:
  "(\<exists>x. filter (\<lambda>m. m_id m = ''u0'') (messages (fst (processEvent (''r7'', ''r8'')
          (messagesSnapshot [snapshotMessage ''a0'' ''assistant'' ''earlier'',
             snapshotMessage ''u0'' ''user'' ''hello'',
             snapshotMessage ''a1'' ''assistant'' ''hi there'',
             snapshotMessage ''a2'' ''assistant'' ''anything else?''])
          (processEvents [((''r1'', ''r2''), textMessageStart ''a1'' ''assistant''),
             ((''r3'', ''r4''), textMessageContent ''hi there''),
             ((''r5'', ''r6''), textMessageEnd)]
            (sendMessage ''u0'' ''2026-01-01T00:00:00Z'' ''hello''
               (initialState\<lparr> messages := [snapshotMessage ''a0'' ''assistant'' ''earlier''] \<rparr>),
             {}))))) = [x]
        \<and> m_role x = ''user'' \<and> m_content x = Some ''hello'')
   \<and> positionedAfter ''a2'' ''u0'' (messages (fst (processEvent (''r7'', ''r8'')
          (messagesSnapshot [snapshotMessage ''a0'' ''assistant'' ''earlier'',
             snapshotMessage ''u0'' ''user'' ''hello'',
             snapshotMessage ''a1'' ''assistant'' ''hi there'',
             snapshotMessage ''a2'' ''assistant'' ''anything else?''])
          (processEvents [((''r1'', ''r2''), textMessageStart ''a1'' ''assistant''),
             ((''r3'', ''r4''), textMessageContent ''hi there''),
             ((''r5'', ''r6''), textMessageEnd)]
            (sendMessage ''u0'' ''2026-01-01T00:00:00Z'' ''hello''
               (initialState\<lparr> messages := [snapshotMessage ''a0'' ''assistant'' ''earlier''] \<rparr>),
             {})))))
   \<and> map m_id (messages (fst (processEvent (''r7'', ''r8'')
          (messagesSnapshot [snapshotMessage ''a0'' ''assistant'' ''earlier'',
             snapshotMessage ''u0'' ''user'' ''hello'',
             snapshotMessage ''a1'' ''assistant'' ''hi there'',
             snapshotMessage ''a2'' ''assistant'' ''anything else?''])
          (processEvents [((''r1'', ''r2''), textMessageStart ''a1'' ''assistant''),
             ((''r3'', ''r4''), textMessageContent ''hi there''),
             ((''r5'', ''r6''), textMessageEnd)]
            (sendMessage ''u0'' ''2026-01-01T00:00:00Z'' ''hello''
               (initialState\<lparr> messages := [snapshotMessage ''a0'' ''assistant'' ''earlier''] \<rparr>),
             {}))))) = [''a0'', ''u0'', ''a1'', ''a2'']"
proof -
  let ?a0 = "snapshotMessage ''a0'' ''assistant'' ''earlier''"
  let ?x = "snapshotMessage ''u0'' ''user'' ''hello''"
  let ?a1 = "snapshotMessage ''a1'' ''assistant'' ''hi there''"
  let ?a2 = "snapshotMessage ''a2'' ''assistant'' ''anything else?''"
  let ?e = "messagesSnapshot [?a0, ?x, ?a1, ?a2]"
  let ?es = "[((''r1'', ''r2''), textMessageStart ''a1'' ''assistant''),
        ((''r3'', ''r4''), textMessageContent ''hi there''),
        ((''r5'', ''r6''), textMessageEnd)]"
  let ?s0 = "initialState\<lparr> messages := [?a0] \<rparr>"
  let ?sh = "processEvents ?es (sendMessage ''u0'' ''2026-01-01T00:00:00Z'' ''hello'' ?s0, {})"
  let ?F = "messages (fst (processEvent (''r7'', ''r8'') ?e ?sh))"
  have h1: "''u0'' \<notin> m_id ` set (messages ?s0)" by (simp add: event_defs js_defs)
  have h2: "notStreaming ''u0'' ?s0" by (simp add: notStreaming_def initialState_def)
  have h3: "\<forall>(rnd', e') \<in> set ?es. \<not> bringsId ''u0'' rnd' e' \<and> echoesSent ''u0'' ''hello'' e'"
    by (simp add: bringsId_def rawBrings_def echoesSent_def event_defs)
  have h4: "e_type ?e = MESSAGES_SNAPSHOT" by (simp add: event_defs)
  have h5: "echoesSent ''u0'' ''hello'' ?e" by (simp add: echoesSent_def event_defs js_defs)
  note t = C6_sent_message_merged_in_place [OF h1 h2 h3 h4 h5,
      of "''2026-01-01T00:00:00Z''" "(''r7'', ''r8'')" "{}"]
  have n: "normalizeSnapshotMessages (filter (\<lambda>m. m_id m \<notin> snd ?sh) (e_messages ?e))
      = [?a0, ?x, ?a1] @ ?a2 # []" by code_simp
  have d: "distinct (map m_id ([?a0, ?x, ?a1] @ ?a2 # []))" by (simp add: event_defs js_defs)
  have new: "m_id ?a2 \<notin> m_id ` set (messages (fst ?sh))" by code_simp
  have role: "m_role ?a2 \<noteq> ''tool''" by (simp add: event_defs js_defs)
  have id2: "m_id ?a2 = ''a2''" by (simp add: event_defs js_defs)
  from t [THEN conjunct2, THEN conjunct2, rule_format, of "[?a0, ?x, ?a1]" ?a2 "[]"] n d new role
  have "positionedAfter (m_id ?a2) ''u0'' ?F" by simp
  then have p: "positionedAfter ''a2'' ''u0'' ?F" unfolding id2 .
  have v: "map m_id ?F = [''a0'', ''u0'', ''a1'', ''a2'']" by code_simp
  from t [THEN conjunct2, THEN conjunct1] p v show ?thesis by (intro conjI)
qed

theorem C6_reply_before_sent_counterexample:
  "map m_id (messages (sendMessage ''u0'' ''2026-01-01T00:00:00Z'' ''hello''
      (fst (processEvents [((''r1'', ''r2''), textMessageStart ''a0'' ''assistant''),
         ((''r3'', ''r4''), textMessageContent ''earlier''),
         ((''r5'', ''r6''), textMessageEnd)] (initialState, {})))))
     = [''a0'', ''u0'']
   \<and> map m_id (messages (fst (processEvent (''r7'', ''r8'')
        (messagesSnapshot [snapshotMessage ''u0'' ''user'' ''hello'',
           snapshotMessage ''a1'' ''assistant'' ''hi there'',
           snapshotMessage ''a0'' ''assistant'' ''earlier''])
        (sendMessage ''u0'' ''2026-01-01T00:00:00Z'' ''hello''
           (fst (processEvents [((''r1'', ''r2''), textMessageStart ''a0'' ''assistant''),
              ((''r3'', ''r4''), textMessageContent ''earlier''),
              ((''r5'', ''r6''), textMessageEnd)] (initialState, {}))), {}))))
     = [''a1'', ''a0'', ''u0'']
   \<and> map m_content (messages (fst (processEvent (''r7'', ''r8'')
        (messagesSnapshot [snapshotMessage ''u0'' ''user'' ''hello'',
           snapshotMessage ''a1'' ''assistant'' ''hi there'',
           snapshotMessage ''a0'' ''assistant'' ''earlier''])
        (sendMessage ''u0'' ''2026-01-01T00:00:00Z'' ''hello''
           (fst (processEvents [((''r1'', ''r2''), textMessageStart ''a0'' ''assistant''),
              ((''r3'', ''r4''), textMessageContent ''earlier''),
              ((''r5'', ''r6''), textMessageEnd)] (initialState, {}))), {}))))
     = [Some ''hi there'', Some ''earlier'', Some ''hello'']
   \<and> \<not> positionedAfter ''a1'' ''u0'' (messages (fst (processEvent (''r7'', ''r8'')
        (messagesSnapshot [snapshotMessage ''u0'' ''user'' ''hello'',
           snapshotMessage ''a1'' ''assistant'' ''hi there'',
           snapshotMessage ''a0'' ''assistant'' ''earlier''])
        (sendMessage ''u0'' ''2026-01-01T00:00:00Z'' ''hello''
           (fst (processEvents [((''r1'', ''r2''), textMessageStart ''a0'' ''assistant''),
              ((''r3'', ''r4''), textMessageContent ''earlier''),
              ((''r5'', ''r6''), textMessageEnd)] (initialState, {}))), {}))))"
  by code_simp

subsection \<open>Tool call status under streaming events\<close>

lemma toolCallsIn_append: "toolCallsIn (ms @ ms') = toolCallsIn ms @ toolCallsIn ms'"
  by (simp add: toolCallsIn_def)

lemma toolCallsIn_single: "toolCallsIn [m] = toolCallsOf m"
  by (simp add: toolCallsIn_def)

lemma toolCallsIn_nth:
  assumes "i < length ms"
  shows "set (toolCallsOf (ms ! i)) \<subseteq> set (toolCallsIn ms)"
proof -
  from assms have "ms ! i \<in> set ms" by simp
  then show ?thesis unfolding toolCallsIn_def by auto
qed

lemma toolCallsIn_update:
  "set (toolCallsIn (ms[i := m])) \<subseteq> set (toolCallsIn ms) \<union> set (toolCallsOf m)"
proof -
  have "set (ms[i := m]) \<subseteq> insert m (set ms)" by (rule set_update_subset_insert)
  then show ?thesis by (auto simp: toolCallsIn_def)
qed

lemma toolCallsIn_filter: "set (toolCallsIn (filter P ms)) \<subseteq> set (toolCallsIn ms)"
  by (auto simp: toolCallsIn_def)

lemma toolCallsIn_mono: "set ms \<subseteq> set ms' \<Longrightarrow> set (toolCallsIn ms) \<subseteq> set (toolCallsIn ms')"
  by (auto simp: toolCallsIn_def)

lemma children_lookup:
  "map_of pc k = Some c \<Longrightarrow> set c \<subseteq> set (concat (map snd pc))"
  by (auto dest!: map_of_SomeD)

lemma children_update:
  "set (concat (map snd (AList.update k v pc))) \<subseteq> set v \<union> set (concat (map snd pc))"
  by (induction pc) auto

lemma children_delete:
  "set (concat (map snd (AList.delete k pc))) \<subseteq> set (concat (map snd pc))"
  by (induction pc) auto

lemma findLastIndex_Some:
  "findLastIndex P xs = Some i \<Longrightarrow> i < length xs \<and> P (xs ! i)"
proof (induction xs arbitrary: i)
  case Nil
  then show ?case by simp
next
  case (Cons x xs)
  show ?case
  proof (cases "findLastIndex P xs")
    case None
    with Cons.prems show ?thesis by (simp split: if_splits)
  next
    case (Some j)
    with Cons.prems have "i = Suc j" by simp
    with Cons.IH [OF Some] show ?thesis by simp
  qed
qed

lemma findLastIndex_None: "findLastIndex P xs = None \<longleftrightarrow> (\<forall>x \<in> set xs. \<not> P x)"
  by (induction xs) (auto split: option.splits)

lemma attachResult_new:
  "tc \<in> set (attachResult t c tcs) \<Longrightarrow> tc \<in> set tcs \<or> tc_status tc = Some ToolCompleted"
proof (cases "findIndex (\<lambda>tc. tc_id tc = t) tcs")
  case None
  assume "tc \<in> set (attachResult t c tcs)"
  with None show ?thesis by (simp add: attachResult_def)
next
  case (Some k)
  assume "tc \<in> set (attachResult t c tcs)"
  with Some have "tc \<in> set (tcs[k := (tcs ! k)\<lparr> tc_result := Some c, tc_status := Some ToolCompleted \<rparr>])"
    by (simp add: attachResult_def)
  then have "tc \<in> insert ((tcs ! k)\<lparr> tc_result := Some c, tc_status := Some ToolCompleted \<rparr>) (set tcs)"
    using set_update_subset_insert by fastforce
  then show ?thesis by auto
qed


lemma toolCallsOf_simps [simp]:
  "toolCallsOf (newMessage i r c ts) = []"
  "toolCallsOf (toolMessage i t tc ts) = [tc]"
  "toolCallsOf (m\<lparr> m_toolCalls := Some tcs \<rparr>) = tcs"
  "toolCallsOf (m\<lparr> m_content := co \<rparr>) = toolCallsOf m"
  "toolCallsOf (m\<lparr> m_metadata := md \<rparr>) = toolCallsOf m"
  by (simp_all add: toolCallsOf_def newMessage_def toolMessage_def)

lemma onlyCompletedAdded_frame:
  "messages s' = messages s \<Longrightarrow> pendingChildren s' = pendingChildren s \<Longrightarrow>
     onlyCompletedAdded s s'"
  by (simp add: onlyCompletedAdded_def allToolCalls_def)

lemma onlyCompletedAdded_parts:
  assumes "\<forall>tc \<in> set (toolCallsIn (messages s')).
             tc \<in> set (allToolCalls s) \<or> tc_status tc = Some ToolCompleted"
    and "\<forall>tc \<in> set (toolCallsIn (concat (map snd (pendingChildren s')))).
             tc \<in> set (allToolCalls s) \<or> tc_status tc = Some ToolCompleted"
  shows "onlyCompletedAdded s s'"
  using assms unfolding onlyCompletedAdded_def allToolCalls_def [of s'] by auto

lemma in_messages_all: "tc \<in> set (toolCallsIn (messages s)) \<Longrightarrow> tc \<in> set (allToolCalls s)"
  by (simp add: allToolCalls_def)

lemma in_children_all:
  "tc \<in> set (toolCallsIn (concat (map snd (pendingChildren s)))) \<Longrightarrow> tc \<in> set (allToolCalls s)"
  by (simp add: allToolCalls_def)

lemma simple_handlers:
  "onlyCompletedAdded s (onRunStarted e s)"
  "onlyCompletedAdded s (onRunError e s)"
  "onlyCompletedAdded s (onTextMessageStart e s)"
  "onlyCompletedAdded s (onTextMessageContent e s)"
  "onlyCompletedAdded s (onToolCallStart e s)"
  "onlyCompletedAdded s (onToolCallArgs e s)"
  "onlyCompletedAdded s (onStateSnapshot e s)"
  "onlyCompletedAdded s (onStateDelta e s)"
  "onlyCompletedAdded s (onActivitySnapshot e s)"
  "onlyCompletedAdded s (onActivityDelta e s)"
  "onlyCompletedAdded s (onStepStarted e s)"
  "onlyCompletedAdded s (onStepFinished s)"
  "onlyCompletedAdded s (onMeta e s)"
  by (rule onlyCompletedAdded_frame;
      simp add: onRunStarted_def onRunError_def onTextMessageStart_def onTextMessageContent_def
        onToolCallStart_def onToolCallArgs_def onStateSnapshot_def onStateDelta_def
        onActivitySnapshot_def onActivityDelta_def onStepStarted_def onStepFinished_def
        onMeta_def Let_def split: option.splits)+

lemma onRunFinished_added: "onlyCompletedAdded s (onRunFinished rnd e s)"
  by (rule onlyCompletedAdded_parts)
     (auto simp: onRunFinished_def Let_def toolCallsIn_append toolCallsIn_single
        split: option.splits intro: in_messages_all in_children_all)

lemma onTextMessageEnd_added: "onlyCompletedAdded s (onTextMessageEnd rnd hidden e s)"
proof (rule onlyCompletedAdded_parts)
  have upd: "set (toolCallsIn ((messages s)[i := (messages s ! i)\<lparr> m_content := c \<rparr>]))
      \<subseteq> set (toolCallsIn (messages s))" if "i < length (messages s)" for i c
    using toolCallsIn_update [of "messages s" i "(messages s ! i)\<lparr> m_content := c \<rparr>"]
      toolCallsIn_nth [OF that] by auto
  show "\<forall>tc \<in> set (toolCallsIn (messages (onTextMessageEnd rnd hidden e s))).
      tc \<in> set (allToolCalls s) \<or> tc_status tc = Some ToolCompleted"
    using upd
    by (auto simp: onTextMessageEnd_def Let_def toolCallsIn_append toolCallsIn_single
        split: option.splits dest!: findIndex_Some intro: in_messages_all)
  show "\<forall>tc \<in> set (toolCallsIn (concat (map snd (pendingChildren (onTextMessageEnd rnd hidden e s))))).
      tc \<in> set (allToolCalls s) \<or> tc_status tc = Some ToolCompleted"
    by (auto simp: onTextMessageEnd_def Let_def split: option.splits intro: in_children_all)
qed

lemma onRaw_added: "onlyCompletedAdded s (fst (onRaw rnd e (s, hidden)))"
proof (rule onlyCompletedAdded_parts)
  show "\<forall>tc \<in> set (toolCallsIn (messages (fst (onRaw rnd e (s, hidden))))).
      tc \<in> set (allToolCalls s) \<or> tc_status tc = Some ToolCompleted"
    using toolCallsIn_filter [of _ "messages s"]
    by (auto simp: onRaw_def Let_def toolCallsIn_append toolCallsIn_single
        split: option.splits intro: in_messages_all)
  show "\<forall>tc \<in> set (toolCallsIn (concat (map snd (pendingChildren (fst (onRaw rnd e (s, hidden))))))).
      tc \<in> set (allToolCalls s) \<or> tc_status tc = Some ToolCompleted"
    by (auto simp: onRaw_def Let_def split: option.splits intro: in_children_all)
qed


lemma in_update_cases:
  "tc \<in> set (toolCallsIn (ms[i := m])) \<Longrightarrow> tc \<in> set (toolCallsIn ms) \<or> tc \<in> set (toolCallsOf m)"
  using toolCallsIn_update [of ms i m] by auto

lemma in_nth_messages:
  "i < length ms \<Longrightarrow> tc \<in> set (toolCallsOf (ms ! i)) \<Longrightarrow> tc \<in> set (toolCallsIn ms)"
  using toolCallsIn_nth [of i ms] by auto

lemma in_children_update_cases:
  "tc \<in> set (toolCallsIn (concat (map snd (AList.update k v pc)))) \<Longrightarrow>
     tc \<in> set (toolCallsIn v) \<or> tc \<in> set (toolCallsIn (concat (map snd pc)))"
  using toolCallsIn_mono [of "concat (map snd (AList.update k v pc))" "v @ concat (map snd pc)"]
    children_update [of k v pc]
  by (auto simp: toolCallsIn_append)

lemma in_children_delete:
  "tc \<in> set (toolCallsIn (concat (map snd (AList.delete k pc)))) \<Longrightarrow>
     tc \<in> set (toolCallsIn (concat (map snd pc)))"
  using toolCallsIn_mono [OF children_delete [of k pc]] by auto

lemma in_children_lookup:
  "map_of pc k = Some c \<Longrightarrow> tc \<in> set (toolCallsIn c) \<Longrightarrow>
     tc \<in> set (toolCallsIn (concat (map snd pc)))"
  using toolCallsIn_mono [OF children_lookup [of pc k c]] by auto

lemma clearCurrentToolCall_fields [simp]:
  "messages (clearCurrentToolCall t s) = messages s"
  "pendingChildren (clearCurrentToolCall t s) = pendingChildren s"
  by (simp_all add: clearCurrentToolCall_def split: option.splits)

lemma resultInChildren_new:
  assumes "resultInChildren t c pc = Some (p, ch')" and "tc \<in> set (toolCallsIn ch')"
  shows "tc \<in> set (toolCallsIn (concat (map snd pc))) \<or> tc_status tc = Some ToolCompleted"
  using assms
proof (induction pc)
  case Nil
  then show ?case by simp
next
  case (Cons entry rest)
  obtain parentId children where entry: "entry = (parentId, children)" by (cases entry)
  show ?case
  proof (cases "findIndex (hasToolCall t) children")
    case None
    with Cons.prems entry have "resultInChildren t c rest = Some (p, ch')" by simp
    from Cons.IH [OF this Cons.prems(2)] show ?thesis
      by (auto simp: toolCallsIn_append)
  next
    case (Some j)
    from findIndex_Some [OF Some] have j: "j < length children" by simp
    from Some Cons.prems(1) entry
    have ch': "ch' = children[j := (children ! j)\<lparr> m_toolCalls :=
        Some (attachResult t c (toolCallsOf (children ! j))) \<rparr>]" by simp
    from Cons.prems(2) have "tc \<in> set (toolCallsIn children)
        \<or> tc \<in> set (attachResult t c (toolCallsOf (children ! j)))"
      unfolding ch' by (auto dest: in_update_cases)
    then have "tc \<in> set (toolCallsIn children) \<or> tc_status tc = Some ToolCompleted"
      using j by (auto dest: attachResult_new in_nth_messages)
    then show ?thesis using entry by (auto simp: toolCallsIn_append)
  qed
qed

lemma in_nth_all:
  "i < length (messages s) \<Longrightarrow> tc \<in> set (toolCallsOf (messages s ! i)) \<Longrightarrow>
     tc \<in> set (allToolCalls s)"
  by (rule in_messages_all) (rule in_nth_messages)

lemma in_lookup_all:
  "map_of (pendingChildren s) k = Some c \<Longrightarrow> tc \<in> set (toolCallsIn c) \<Longrightarrow>
     tc \<in> set (allToolCalls s)"
  by (rule in_children_all) (rule in_children_lookup)

lemma onToolCallResult_added: "onlyCompletedAdded s (onToolCallResult e s)"
proof (rule onlyCompletedAdded_parts)
  show "\<forall>tc \<in> set (toolCallsIn (messages (onToolCallResult e s))).
      tc \<in> set (allToolCalls s) \<or> tc_status tc = Some ToolCompleted"
    by (auto simp: onToolCallResult_def Let_def split: option.splits
        dest!: findLastIndex_Some in_update_cases attachResult_new
        intro: in_messages_all in_nth_all)
  show "\<forall>tc \<in> set (toolCallsIn (concat (map snd (pendingChildren (onToolCallResult e s))))).
      tc \<in> set (allToolCalls s) \<or> tc_status tc = Some ToolCompleted"
    by (auto simp: onToolCallResult_def Let_def split: option.splits
        dest!: in_children_update_cases dest: resultInChildren_new
        intro: in_children_all)
qed

lemma onlyCompletedAdded_same:
  assumes "messages s1 = messages s" and "pendingChildren s1 = pendingChildren s"
    and "onlyCompletedAdded s1 s'"
  shows "onlyCompletedAdded s s'"
  using assms by (simp add: onlyCompletedAdded_def allToolCalls_def)

lemma onlyCompletedAdded_clear:
  "onlyCompletedAdded s s' \<Longrightarrow> onlyCompletedAdded s (clearCurrentToolCall t s')"
  by (simp add: onlyCompletedAdded_def allToolCalls_def)

lemma onlyCompletedAdded_refl: "onlyCompletedAdded s s"
  by (simp add: onlyCompletedAdded_def)

lemma bufferChild_added:
  assumes "tc_status c = Some ToolCompleted"
  shows "onlyCompletedAdded s (bufferChild parent (toolMessage u t c ts) s)"
proof (rule onlyCompletedAdded_parts)
  show "\<forall>tc \<in> set (toolCallsIn (messages (bufferChild parent (toolMessage u t c ts) s))).
      tc \<in> set (allToolCalls s) \<or> tc_status tc = Some ToolCompleted"
    by (auto simp: bufferChild_def intro: in_messages_all)
  show "\<forall>tc \<in> set (toolCallsIn (concat (map snd (pendingChildren
        (bufferChild parent (toolMessage u t c ts) s))))).
      tc \<in> set (allToolCalls s) \<or> tc_status tc = Some ToolCompleted"
    using assms
    by (auto simp: bufferChild_def toolCallsIn_append toolCallsIn_single split: option.splits
        dest!: in_children_update_cases intro: in_children_all in_lookup_all)
qed

lemma appendToParent_added:
  assumes "tc_status c = Some ToolCompleted" and "i < length (messages s)"
  shows "onlyCompletedAdded s (appendToParent i c s)"
proof (rule onlyCompletedAdded_parts)
  show "\<forall>tc \<in> set (toolCallsIn (messages (appendToParent i c s))).
      tc \<in> set (allToolCalls s) \<or> tc_status tc = Some ToolCompleted"
    using assms
    by (auto simp: appendToParent_def Let_def dest!: in_update_cases
        intro: in_messages_all in_nth_all)
  show "\<forall>tc \<in> set (toolCallsIn (concat (map snd (pendingChildren (appendToParent i c s))))).
      tc \<in> set (allToolCalls s) \<or> tc_status tc = Some ToolCompleted"
    by (auto simp: appendToParent_def Let_def intro: in_children_all)
qed

lemma attachToMessage_messages:
  assumes "tc_status c = Some ToolCompleted"
    and "tc \<in> set (toolCallsIn (messages (attachToMessage u pm ts c s)))"
  shows "tc \<in> set (allToolCalls s) \<or> tc_status tc = Some ToolCompleted"
proof (cases "findLastIndex (\<lambda>m. if truthy pm then m_id m = the pm
                                   else m_role m = ''assistant'') (messages s)")
  case None
  with assms show ?thesis
    by (auto simp: attachToMessage_def Let_def toolCallsIn_append toolCallsIn_single
        intro: in_messages_all)
next
  case (Some i)
  from findLastIndex_Some [OF Some] have i: "i < length (messages s)" by simp
  show ?thesis
  proof (cases "list_ex (\<lambda>tc. tc_id tc = tc_id c) (toolCallsOf (messages s ! i))")
    case True
    with Some assms(2) show ?thesis
      by (auto simp: attachToMessage_def Let_def intro: in_messages_all)
  next
    case False
    define pend where "pend = (case map_of (pendingChildren s) (tc_id c) of
        None \<Rightarrow> [] | Some ch \<Rightarrow> ch)"
    have pend: "set (toolCallsIn pend) \<subseteq> set (allToolCalls s)"
      by (auto simp: pend_def toolCallsIn_def [of "[]"] split: option.splits
          intro: in_lookup_all)
    from Some False assms(2)
    have "tc \<in> set (toolCallsIn ((messages s)[i := (messages s ! i)\<lparr> m_toolCalls :=
        Some (toolCallsOf (messages s ! i) @ [c] @ toolCallsIn pend) \<rparr>]))"
      by (simp add: attachToMessage_def Let_def pend_def toolCallsIn_def)
    then have "tc \<in> set (toolCallsIn (messages s))
        \<or> tc \<in> set (toolCallsOf (messages s ! i) @ [c] @ toolCallsIn pend)"
      by (auto dest: in_update_cases)
    then show ?thesis
      using assms(1) i pend by (auto intro: in_messages_all in_nth_all)
  qed
qed

lemma attachToMessage_added:
  assumes "tc_status c = Some ToolCompleted"
  shows "onlyCompletedAdded s (attachToMessage u pm ts c s)"
proof (rule onlyCompletedAdded_parts)
  show "\<forall>tc \<in> set (toolCallsIn (messages (attachToMessage u pm ts c s))).
      tc \<in> set (allToolCalls s) \<or> tc_status tc = Some ToolCompleted"
    using attachToMessage_messages [OF assms] by blast
  show "\<forall>tc \<in> set (toolCallsIn (concat (map snd (pendingChildren (attachToMessage u pm ts c s))))).
      tc \<in> set (allToolCalls s) \<or> tc_status tc = Some ToolCompleted"
    by (auto simp: attachToMessage_def Let_def split: option.splits
        dest!: in_children_delete intro: in_children_all)
qed

lemma completedToolCallOf_status: "tc_status (completedToolCallOf t s) = Some ToolCompleted"
  by (simp add: completedToolCallOf_def Let_def)

lemma onToolCallEnd_added: "onlyCompletedAdded s (onToolCallEnd rnd e s)"
proof -
  let ?t = "endedToolCallId rnd e s"
  let ?c = "completedToolCallOf ?t s"
  let ?s1 = "s\<lparr> pendingToolCalls := AList.delete ?t (pendingToolCalls s) \<rparr>"
  note st = completedToolCallOf_status [of ?t s]
  have same: "messages ?s1 = messages s" "pendingChildren ?s1 = pendingChildren s" by simp_all
  have a: "onlyCompletedAdded s (clearCurrentToolCall ?t ?s1)"
    by (rule onlyCompletedAdded_clear) (rule onlyCompletedAdded_same [OF same onlyCompletedAdded_refl])
  have b: "onlyCompletedAdded s (clearCurrentToolCall ?t (bufferChild p (toolMessage u ?t ?c ts) ?s1))"
    for p u ts
    by (rule onlyCompletedAdded_clear)
       (rule onlyCompletedAdded_same [OF same bufferChild_added [OF st]])
  have c: "onlyCompletedAdded s (clearCurrentToolCall ?t (appendToParent i ?c ?s1))"
    if "i < length (messages s)" for i
    by (rule onlyCompletedAdded_clear)
       (rule onlyCompletedAdded_same [OF same appendToParent_added [OF st]], simp add: that)
  have d: "onlyCompletedAdded s (attachToMessage u pm ts ?c ?s1)" for u pm ts
    by (rule onlyCompletedAdded_same [OF same attachToMessage_added [OF st]])
  show ?thesis
    unfolding onToolCallEnd_def Let_def
    using a b c d
    by (auto split: option.splits dest!: findLastIndex_Some simp del: AGUIClientState.simps)
qed

lemma processEvent_added:
  assumes "e_type e \<noteq> MESSAGES_SNAPSHOT"
  shows "onlyCompletedAdded s (fst (processEvent rnd e (s, hidden)))"
  using assms simple_handlers onRunFinished_added [of s rnd e]
    onTextMessageEnd_added [of s rnd hidden e] onToolCallEnd_added [of s rnd e]
    onToolCallResult_added [of s e] onRaw_added [of s rnd e hidden]
    onlyCompletedAdded_refl [of s]
  by (simp add: processEvent_def Let_def)

lemma terminal_kept:
  assumes "onlyCompletedAdded s s'"
    and "\<forall>tc \<in> set (allToolCalls s). tc_id tc = t \<longrightarrow> isTerminal tc"
  shows "\<forall>tc \<in> set (allToolCalls s'). tc_id tc = t \<longrightarrow> isTerminal tc"
  using assms by (auto simp: onlyCompletedAdded_def isTerminal_def)

lemma preferExisting_status: "tc_status (preferExisting existingTC snapshotTC) = tc_status snapshotTC"
  by (simp add: preferExisting_def Let_def)

text \<open>
  C2. The claim fails at the snapshot merge, which takes the status of every tool call the
  snapshot contains from the snapshot's copy (\<open>preferExisting\<close> keeps name, arguments and
  parent of the streamed copy, never its status): a completed tool call comes back pending,
  or without status. What holds is monotonicity under all other events: along any run of
  events without a messages snapshot, from any state, if every tool call with the id \<open>t\<close>
  in the committed messages and in \<open>pendingChildren\<close> has the status completed or error,
  then so has every tool call with the id \<open>t\<close> afterwards.
\<close>

theorem C2_status_monotone_without_snapshot:
  assumes "\<forall>p \<in> set es. e_type (snd p) \<noteq> MESSAGES_SNAPSHOT"
    and "\<forall>tc \<in> set (allToolCalls (fst sh)). tc_id tc = t \<longrightarrow> isTerminal tc"
  shows "(\<forall>tc \<in> set (allToolCalls (fst (processEvents es sh))). tc_id tc = t \<longrightarrow> isTerminal tc)
    \<and> tc_status (preferExisting existingTC snapshotTC) = tc_status snapshotTC"
proof -
  have "\<forall>tc \<in> set (allToolCalls (fst (processEvents es sh))). tc_id tc = t \<longrightarrow> isTerminal tc"
    using assms
  proof (induction es arbitrary: sh)
    case Nil
    then show ?case by simp
  next
    case (Cons p es)
    obtain rnd e where p: "p = (rnd, e)" by (cases p)
    obtain s hidden where sh: "sh = (s, hidden)" by (cases sh)
    from Cons.prems(1) p have e: "e_type e \<noteq> MESSAGES_SNAPSHOT" by simp
    have step: "onlyCompletedAdded s (fst (processEvent rnd e (s, hidden)))"
      by (rule processEvent_added [OF e])
    have before: "\<forall>tc \<in> set (allToolCalls s). tc_id tc = t \<longrightarrow> isTerminal tc"
      using Cons.prems(2) by (simp add: sh)
    have "\<forall>tc \<in> set (allToolCalls (fst (processEvent rnd e (s, hidden)))).
        tc_id tc = t \<longrightarrow> isTerminal tc"
      by (rule terminal_kept [OF step before])
    moreover from Cons.prems(1) have "\<forall>p \<in> set es. e_type (snd p) \<noteq> MESSAGES_SNAPSHOT" by simp
    ultimately have "\<forall>tc \<in> set (allToolCalls (fst (processEvents es (processEvent rnd e (s, hidden))))).
        tc_id tc = t \<longrightarrow> isTerminal tc"
      by (intro Cons.IH)
    then show ?case by (simp add: p sh)
  qed
  then show ?thesis by (simp add: preferExisting_status)
qed

theorem C2_status_monotone_witness:
  "map tc_status (allToolCalls (fst (processEvents
      [((''u1'', ''u2''), toolCallStart ''t1'' ''search'' None),
       ((''u1'', ''u2''), toolCallEnd ''t1''),
       ((''u1'', ''u2''), toolCallResult ''t1'' ''found'')] (initialState, {}))))
     = [Some ToolCompleted]
   \<and> list_all (\<lambda>tc. tc_id tc = ''t1'' \<longrightarrow> isTerminal tc) (allToolCalls (fst (processEvents
      [((''u1'', ''u2''), toolCallStart ''t1'' ''search'' None),
       ((''u1'', ''u2''), toolCallEnd ''t1''),
       ((''u1'', ''u2''), toolCallResult ''t1'' ''found'')] (initialState, {}))))"
proof -
  let ?es = "[((''u1'', ''u2''), toolCallStart ''t1'' ''search'' None),
       ((''u1'', ''u2''), toolCallEnd ''t1''),
       ((''u1'', ''u2''), toolCallResult ''t1'' ''found'')]"
  have h1: "\<forall>p \<in> set ?es. e_type (snd p) \<noteq> MESSAGES_SNAPSHOT"
    by (simp add: event_defs EventType_defs)
  have h2: "\<forall>tc \<in> set (allToolCalls (fst (initialState, {}))). tc_id tc = ''t1'' \<longrightarrow> isTerminal tc"
    by (simp add: allToolCalls_def toolCallsIn_def initialState_def)
  have v: "map tc_status (allToolCalls (fst (processEvents ?es (initialState, {}))))
     = [Some ToolCompleted]" by code_simp
  from C2_status_monotone_without_snapshot [OF h1 h2]
  have "list_all (\<lambda>tc. tc_id tc = ''t1'' \<longrightarrow> isTerminal tc)
      (allToolCalls (fst (processEvents ?es (initialState, {}))))"
    by (simp add: list_all_iff)
  with v show ?thesis by (intro conjI)
qed

theorem C2_snapshot_regresses_status_counterexample:
  "map (map tc_status \<circ> toolCallsOf) (messages (fst (processEvents
      [((''u1'', ''u2''), textMessageStart ''m1'' ''assistant''),
       ((''u1'', ''u2''), textMessageContent ''searching''),
       ((''u1'', ''u2''), textMessageEnd),
       ((''u1'', ''u2''), toolCallStart ''t1'' ''search'' None),
       ((''u1'', ''u2''), toolCallEnd ''t1'')] (initialState, {}))))
     = [[Some ToolCompleted]]
   \<and> map (map tc_status \<circ> toolCallsOf) (messages (fst (processEvents
      [((''u1'', ''u2''), textMessageStart ''m1'' ''assistant''),
       ((''u1'', ''u2''), textMessageContent ''searching''),
       ((''u1'', ''u2''), textMessageEnd),
       ((''u1'', ''u2''), toolCallStart ''t1'' ''search'' None),
       ((''u1'', ''u2''), toolCallEnd ''t1''),
       ((''u1'', ''u2''), messagesSnapshot [assistantWithToolCalls ''m1''
           [snapshotToolCall ''t1'' ''search'' (Some ToolPending)]])] (initialState, {}))))
     = [[Some ToolPending]]
   \<and> map (map tc_status \<circ> toolCallsOf) (messages (fst (processEvents
      [((''u1'', ''u2''), textMessageStart ''m1'' ''assistant''),
       ((''u1'', ''u2''), textMessageContent ''searching''),
       ((''u1'', ''u2''), textMessageEnd),
       ((''u1'', ''u2''), toolCallStart ''t1'' ''search'' None),
       ((''u1'', ''u2''), toolCallEnd ''t1''),
       ((''u1'', ''u2''), messagesSnapshot [assistantWithToolCalls ''m1''
           [snapshotToolCall ''t1'' ''search'' None]])] (initialState, {}))))
     = [[None]]"
  by code_simp

subsection \<open>Tool results\<close>

lemma findLastIndex_exists:
  assumes "list_ex P xs"
  obtains i where "findLastIndex P xs = Some i"
  using assms findLastIndex_None [of P xs] by (cases "findLastIndex P xs") (auto simp: list_ex_iff)

lemma findIndex_exists:
  assumes "list_ex P xs"
  obtains i where "findIndex P xs = Some i"
  using assms findIndex_None [of P xs] by (cases "findIndex P xs") (auto simp: list_ex_iff)

lemma resultInChildren_None:
  "\<not> list_ex (\<lambda>(p, children). list_ex (hasToolCall t) children) pc \<Longrightarrow>
     resultInChildren t c pc = None"
proof (induction pc)
  case Nil
  show ?case by simp
next
  case (Cons entry rest)
  obtain p children where entry: "entry = (p, children)" by (cases entry)
  from Cons.prems entry have "\<not> list_ex (hasToolCall t) children" by simp
  then have "findIndex (hasToolCall t) children = None"
    by (simp add: findIndex_None list_ex_iff)
  with Cons entry show ?case by simp
qed

text \<open>The indices the searches find: the first one, and the last one.\<close>

lemma findIndex_first:
  "findIndex P xs = Some i \<Longrightarrow> i < length xs \<and> P (xs ! i) \<and> (\<forall>j<i. \<not> P (xs ! j))"
proof (induction xs arbitrary: i)
  case Nil
  then show ?case by simp
next
  case (Cons x xs)
  show ?case
  proof (cases "P x")
    case True
    with Cons.prems show ?thesis by simp
  next
    case False
    with Cons.prems obtain j where j: "findIndex P xs = Some j" "i = Suc j" by auto
    from Cons.IH [OF j(1)] False j(2) show ?thesis by (auto simp: less_Suc_eq_0_disj)
  qed
qed

lemma findLastIndex_last:
  "findLastIndex P xs = Some i \<Longrightarrow>
     i < length xs \<and> P (xs ! i) \<and> (\<forall>j<length xs. i < j \<longrightarrow> \<not> P (xs ! j))"
proof (induction xs arbitrary: i)
  case Nil
  then show ?case by simp
next
  case (Cons x xs)
  show ?case
  proof (cases "findLastIndex P xs")
    case None
    then have "\<forall>j<length xs. \<not> P (xs ! j)" by (simp add: findLastIndex_None)
    with None Cons.prems show ?thesis by (auto split: if_splits simp: less_Suc_eq_0_disj)
  next
    case (Some j)
    with Cons.prems have "i = Suc j" by simp
    with Cons.IH [OF Some] show ?thesis by (auto simp: less_Suc_eq_0_disj)
  qed
qed

lemma attachResult_first:
  assumes "hasToolCall t m"
  shows "\<exists>tcs k. m_toolCalls m = Some tcs \<and> k < length tcs \<and> tc_id (tcs ! k) = t
    \<and> (\<forall>k'<k. tc_id (tcs ! k') \<noteq> t)
    \<and> attachResult t c (toolCallsOf m)
       = tcs[k := (tcs ! k)\<lparr> tc_result := Some c, tc_status := Some ToolCompleted \<rparr>]"
proof -
  from assms obtain tcs where tcs: "m_toolCalls m = Some tcs" "list_ex (\<lambda>tc. tc_id tc = t) tcs"
    by (auto simp: hasToolCall_def split: option.splits)
  from tcs(2) obtain k where k: "findIndex (\<lambda>tc. tc_id tc = t) tcs = Some k"
    by (rule findIndex_exists)
  from findIndex_first [OF k] have "k < length tcs" "tc_id (tcs ! k) = t"
    "\<forall>k'<k. tc_id (tcs ! k') \<noteq> t" by simp_all
  moreover have "attachResult t c (toolCallsOf m)
       = tcs[k := (tcs ! k)\<lparr> tc_result := Some c, tc_status := Some ToolCompleted \<rparr>]"
    using tcs(1) k by (simp add: attachResult_def toolCallsOf_def)
  ultimately show ?thesis using tcs(1) by blast
qed

lemma resultInChildren_first:
  assumes "list_ex (\<lambda>(p, children). list_ex (hasToolCall t) children) pc"
  shows "\<exists>p parentId children j. p < length pc \<and> pc ! p = (parentId, children)
    \<and> (\<forall>q<p. \<not> list_ex (hasToolCall t) (snd (pc ! q)))
    \<and> j < length children \<and> hasToolCall t (children ! j)
    \<and> (\<forall>j'<j. \<not> hasToolCall t (children ! j'))
    \<and> resultInChildren t c pc = Some (parentId, children[j := (children ! j)\<lparr> m_toolCalls :=
           Some (attachResult t c (toolCallsOf (children ! j))) \<rparr>])"
  using assms
proof (induction pc)
  case Nil
  then show ?case by simp
next
  case (Cons entry rest)
  obtain p0 children0 where entry: "entry = (p0, children0)" by (cases entry)
  show ?case
  proof (cases "findIndex (hasToolCall t) children0")
    case (Some j)
    from findIndex_first [OF Some] have "j < length children0" "hasToolCall t (children0 ! j)"
      "\<forall>j'<j. \<not> hasToolCall t (children0 ! j')" by simp_all
    moreover have "resultInChildren t c (entry # rest)
        = Some (p0, children0[j := (children0 ! j)\<lparr> m_toolCalls :=
           Some (attachResult t c (toolCallsOf (children0 ! j))) \<rparr>])"
      using Some by (simp add: entry)
    moreover have "0 < length (entry # rest)" "(entry # rest) ! 0 = (p0, children0)"
      "\<forall>q<0. \<not> list_ex (hasToolCall t) (snd ((entry # rest) ! q))" by (simp_all add: entry)
    ultimately show ?thesis by blast
  next
    case None
    then have no: "\<not> list_ex (hasToolCall t) children0"
      by (simp add: findIndex_None list_ex_iff)
    with Cons.prems entry
    have rest: "list_ex (\<lambda>(p, children). list_ex (hasToolCall t) children) rest" by simp
    from Cons.IH [OF rest] obtain p parentId children j where
      a: "p < length rest" "rest ! p = (parentId, children)"
        "\<forall>q<p. \<not> list_ex (hasToolCall t) (snd (rest ! q))"
        "j < length children" "hasToolCall t (children ! j)"
        "\<forall>j'<j. \<not> hasToolCall t (children ! j')"
        "resultInChildren t c rest = Some (parentId, children[j := (children ! j)\<lparr> m_toolCalls :=
           Some (attachResult t c (toolCallsOf (children ! j))) \<rparr>])"
      by blast
    have "Suc p < length (entry # rest)" "(entry # rest) ! Suc p = (parentId, children)"
      using a(1,2) by simp_all
    moreover have "\<forall>q<Suc p. \<not> list_ex (hasToolCall t) (snd ((entry # rest) ! q))"
      using a(3) no by (auto simp: less_Suc_eq_0_disj entry)
    moreover have "resultInChildren t c (entry # rest)
        = Some (parentId, children[j := (children ! j)\<lparr> m_toolCalls :=
           Some (attachResult t c (toolCallsOf (children ! j))) \<rparr>])"
      using None a(7) by (simp add: entry)
    ultimately show ?thesis using a(4,5,6) by blast
  qed
qed

text \<open>
  C7. A tool-result event with an empty \<open>toolCallId\<close> does nothing (\<open>if (toolCallId)\<close>),
  also when a tool call with the empty id exists, so the claim holds for events that carry
  an id. For those: when a message holds a tool call with the id, the result goes to the
  first such tool call of the last such message and its status becomes completed, and
  nothing else changes; otherwise, when a buffered child holds one, the same happens to
  the first such tool call of the first such child of the first parent in
  \<open>pendingChildren\<close> that has one, and the entry of that parent is set to the changed
  children; otherwise the state is returned unchanged.
\<close>

theorem C7_tool_result_attached:
  assumes "e_type e = TOOL_CALL_RESULT"
  shows "(e_toolCallId e \<noteq> [] \<and> list_ex (hasToolCall (e_toolCallId e)) (messages s) \<longrightarrow>
      (\<exists>i tcs k. i < length (messages s)
         \<and> (\<forall>i'<length (messages s). i < i' \<longrightarrow> \<not> hasToolCall (e_toolCallId e) (messages s ! i'))
         \<and> m_toolCalls (messages s ! i) = Some tcs
         \<and> k < length tcs \<and> tc_id (tcs ! k) = e_toolCallId e
         \<and> (\<forall>k'<k. tc_id (tcs ! k') \<noteq> e_toolCallId e)
         \<and> processEvent rnd e (s, hidden)
           = (s\<lparr> messages := (messages s)[i := (messages s ! i)\<lparr> m_toolCalls :=
                 Some (tcs[k := (tcs ! k)\<lparr> tc_result := Some (e_content e),
                                              tc_status := Some ToolCompleted \<rparr>]) \<rparr>] \<rparr>, hidden)))
    \<and> (e_toolCallId e \<noteq> [] \<and> \<not> list_ex (hasToolCall (e_toolCallId e)) (messages s)
         \<and> list_ex (\<lambda>(p, children). list_ex (hasToolCall (e_toolCallId e)) children)
              (pendingChildren s) \<longrightarrow>
      (\<exists>p parentId children j tcs k. p < length (pendingChildren s)
         \<and> pendingChildren s ! p = (parentId, children)
         \<and> (\<forall>q<p. \<not> list_ex (hasToolCall (e_toolCallId e)) (snd (pendingChildren s ! q)))
         \<and> j < length children
         \<and> (\<forall>j'<j. \<not> hasToolCall (e_toolCallId e) (children ! j'))
         \<and> m_toolCalls (children ! j) = Some tcs
         \<and> k < length tcs \<and> tc_id (tcs ! k) = e_toolCallId e
         \<and> (\<forall>k'<k. tc_id (tcs ! k') \<noteq> e_toolCallId e)
         \<and> processEvent rnd e (s, hidden)
           = (s\<lparr> pendingChildren := AList.update parentId
                 (children[j := (children ! j)\<lparr> m_toolCalls :=
                    Some (tcs[k := (tcs ! k)\<lparr> tc_result := Some (e_content e),
                                                 tc_status := Some ToolCompleted \<rparr>]) \<rparr>])
                 (pendingChildren s) \<rparr>, hidden)))
    \<and> (e_toolCallId e = []
         \<or> \<not> list_ex (hasToolCall (e_toolCallId e)) (messages s)
           \<and> \<not> list_ex (\<lambda>(p, children). list_ex (hasToolCall (e_toolCallId e)) children)
                (pendingChildren s) \<longrightarrow>
      processEvent rnd e (s, hidden) = (s, hidden))"
proof -
  let ?t = "e_toolCallId e"
  let ?c = "e_content e"
  have pe: "processEvent rnd e (s, hidden) = (onToolCallResult e s, hidden)"
    using assms by (simp add: processEvent_def EventType_defs)
  have A: "\<exists>i tcs k. i < length (messages s)
         \<and> (\<forall>i'<length (messages s). i < i' \<longrightarrow> \<not> hasToolCall ?t (messages s ! i'))
         \<and> m_toolCalls (messages s ! i) = Some tcs
         \<and> k < length tcs \<and> tc_id (tcs ! k) = ?t
         \<and> (\<forall>k'<k. tc_id (tcs ! k') \<noteq> ?t)
         \<and> processEvent rnd e (s, hidden)
           = (s\<lparr> messages := (messages s)[i := (messages s ! i)\<lparr> m_toolCalls :=
                 Some (tcs[k := (tcs ! k)\<lparr> tc_result := Some ?c,
                                              tc_status := Some ToolCompleted \<rparr>]) \<rparr>] \<rparr>, hidden)"
    if t: "?t \<noteq> []" and ex: "list_ex (hasToolCall ?t) (messages s)"
  proof -
    from ex obtain i where i: "findLastIndex (hasToolCall ?t) (messages s) = Some i"
      by (rule findLastIndex_exists)
    from findLastIndex_last [OF i] have il: "i < length (messages s)"
      and has: "hasToolCall ?t (messages s ! i)"
      and last: "\<forall>i'<length (messages s). i < i' \<longrightarrow> \<not> hasToolCall ?t (messages s ! i')"
      by simp_all
    from attachResult_first [OF has, of ?c] obtain tcs k where
      tk: "m_toolCalls (messages s ! i) = Some tcs" "k < length tcs"
      "tc_id (tcs ! k) = ?t" "\<forall>k'<k. tc_id (tcs ! k') \<noteq> ?t"
      "attachResult ?t ?c (toolCallsOf (messages s ! i))
         = tcs[k := (tcs ! k)\<lparr> tc_result := Some ?c, tc_status := Some ToolCompleted \<rparr>]"
      by blast
    have "onToolCallResult e s = s\<lparr> messages := (messages s)[i := (messages s ! i)\<lparr> m_toolCalls :=
                 Some (tcs[k := (tcs ! k)\<lparr> tc_result := Some ?c,
                                              tc_status := Some ToolCompleted \<rparr>]) \<rparr>] \<rparr>"
      using t i tk(5) by (simp add: onToolCallResult_def Let_def)
    with pe have "processEvent rnd e (s, hidden)
           = (s\<lparr> messages := (messages s)[i := (messages s ! i)\<lparr> m_toolCalls :=
                 Some (tcs[k := (tcs ! k)\<lparr> tc_result := Some ?c,
                                              tc_status := Some ToolCompleted \<rparr>]) \<rparr>] \<rparr>, hidden)"
      by simp
    with il last tk(1,2,3,4) show ?thesis by blast
  qed
  have B: "\<exists>p parentId children j tcs k. p < length (pendingChildren s)
         \<and> pendingChildren s ! p = (parentId, children)
         \<and> (\<forall>q<p. \<not> list_ex (hasToolCall ?t) (snd (pendingChildren s ! q)))
         \<and> j < length children
         \<and> (\<forall>j'<j. \<not> hasToolCall ?t (children ! j'))
         \<and> m_toolCalls (children ! j) = Some tcs
         \<and> k < length tcs \<and> tc_id (tcs ! k) = ?t
         \<and> (\<forall>k'<k. tc_id (tcs ! k') \<noteq> ?t)
         \<and> processEvent rnd e (s, hidden)
           = (s\<lparr> pendingChildren := AList.update parentId
                 (children[j := (children ! j)\<lparr> m_toolCalls :=
                    Some (tcs[k := (tcs ! k)\<lparr> tc_result := Some ?c,
                                                 tc_status := Some ToolCompleted \<rparr>]) \<rparr>])
                 (pendingChildren s) \<rparr>, hidden)"
    if t: "?t \<noteq> []" and nex: "\<not> list_ex (hasToolCall ?t) (messages s)"
      and ex: "list_ex (\<lambda>(p, children). list_ex (hasToolCall ?t) children) (pendingChildren s)"
  proof -
    from nex have none: "findLastIndex (hasToolCall ?t) (messages s) = None"
      by (simp add: findLastIndex_None list_ex_iff)
    from resultInChildren_first [OF ex, of ?c] obtain p parentId children j where
      r: "p < length (pendingChildren s)" "pendingChildren s ! p = (parentId, children)"
        "\<forall>q<p. \<not> list_ex (hasToolCall ?t) (snd (pendingChildren s ! q))"
        "j < length children" "hasToolCall ?t (children ! j)"
        "\<forall>j'<j. \<not> hasToolCall ?t (children ! j')"
        "resultInChildren ?t ?c (pendingChildren s)
           = Some (parentId, children[j := (children ! j)\<lparr> m_toolCalls :=
               Some (attachResult ?t ?c (toolCallsOf (children ! j))) \<rparr>])"
      by blast
    from attachResult_first [OF r(5), of ?c] obtain tcs k where
      tk: "m_toolCalls (children ! j) = Some tcs" "k < length tcs"
      "tc_id (tcs ! k) = ?t" "\<forall>k'<k. tc_id (tcs ! k') \<noteq> ?t"
      "attachResult ?t ?c (toolCallsOf (children ! j))
         = tcs[k := (tcs ! k)\<lparr> tc_result := Some ?c, tc_status := Some ToolCompleted \<rparr>]"
      by blast
    have "onToolCallResult e s = s\<lparr> pendingChildren := AList.update parentId
                 (children[j := (children ! j)\<lparr> m_toolCalls :=
                    Some (tcs[k := (tcs ! k)\<lparr> tc_result := Some ?c,
                                                 tc_status := Some ToolCompleted \<rparr>]) \<rparr>])
                 (pendingChildren s) \<rparr>"
      using t none r(7) tk(5) by (simp add: onToolCallResult_def Let_def)
    with pe have "processEvent rnd e (s, hidden)
           = (s\<lparr> pendingChildren := AList.update parentId
                 (children[j := (children ! j)\<lparr> m_toolCalls :=
                    Some (tcs[k := (tcs ! k)\<lparr> tc_result := Some ?c,
                                                 tc_status := Some ToolCompleted \<rparr>]) \<rparr>])
                 (pendingChildren s) \<rparr>, hidden)" by simp
    with r(1,2,3,4,6) tk(1,2,3,4) show ?thesis by blast
  qed
  have C: "processEvent rnd e (s, hidden) = (s, hidden)"
    if "?t = [] \<or> \<not> list_ex (hasToolCall ?t) (messages s)
           \<and> \<not> list_ex (\<lambda>(p, children). list_ex (hasToolCall ?t) children) (pendingChildren s)"
  proof (cases "?t = []")
    case True
    then show ?thesis by (simp add: pe onToolCallResult_def)
  next
    case False
    with that have nex: "\<not> list_ex (hasToolCall ?t) (messages s)"
      and nch: "\<not> list_ex (\<lambda>(p, children). list_ex (hasToolCall ?t) children) (pendingChildren s)"
      by simp_all
    from nex have none: "findLastIndex (hasToolCall ?t) (messages s) = None"
      by (simp add: findLastIndex_None list_ex_iff)
    from resultInChildren_None [OF nch] none False show ?thesis
      by (simp add: pe onToolCallResult_def Let_def)
  qed
  from A B C show ?thesis by blast
qed

theorem C7_tool_result_attached_witness:
  "e_type (toolCallResult ''t1'' ''found'') = TOOL_CALL_RESULT
   \<and> processEvent (''u1'', ''u2'') (toolCallResult ''t1'' ''found'')
        (initialState\<lparr> messages :=
           [assistantWithToolCalls ''a1'' [snapshotToolCall ''t1'' ''search'' (Some ToolRunning)],
            assistantWithToolCalls ''a2'' [snapshotToolCall ''t0'' ''read'' (Some ToolRunning),
              snapshotToolCall ''t1'' ''search'' (Some ToolRunning),
              snapshotToolCall ''t1'' ''search'' (Some ToolPending)]] \<rparr>, {})
     = (initialState\<lparr> messages :=
           [assistantWithToolCalls ''a1'' [snapshotToolCall ''t1'' ''search'' (Some ToolRunning)],
            assistantWithToolCalls ''a2'' [snapshotToolCall ''t0'' ''read'' (Some ToolRunning),
              (snapshotToolCall ''t1'' ''search'' (Some ToolCompleted))
                 \<lparr> tc_result := Some ''found'' \<rparr>,
              snapshotToolCall ''t1'' ''search'' (Some ToolPending)]] \<rparr>, {})
   \<and> processEvent (''u1'', ''u2'') (toolCallResult ''C'' ''found'')
        (initialState\<lparr> pendingChildren :=
           [(''Q'', [toolMessage ''c0'' ''X'' (snapshotToolCall ''X'' ''read'' (Some ToolCompleted)) None]),
            (''P'', [toolMessage ''c1'' ''Y'' (snapshotToolCall ''Y'' ''read'' (Some ToolCompleted)) None,
                     toolMessage ''c2'' ''C'' (snapshotToolCall ''C'' ''read'' (Some ToolRunning)) None])] \<rparr>, {})
     = (initialState\<lparr> pendingChildren :=
           [(''Q'', [toolMessage ''c0'' ''X'' (snapshotToolCall ''X'' ''read'' (Some ToolCompleted)) None]),
            (''P'', [toolMessage ''c1'' ''Y'' (snapshotToolCall ''Y'' ''read'' (Some ToolCompleted)) None,
                     toolMessage ''c2'' ''C'' ((snapshotToolCall ''C'' ''read'' (Some ToolCompleted))
                        \<lparr> tc_result := Some ''found'' \<rparr>) None])] \<rparr>, {})
   \<and> processEvent (''u1'', ''u2'') (toolCallResult ''zz'' ''found'') (initialState, {})
       = (initialState, {})"
proof -
  have h: "e_type (toolCallResult ''t1'' ''found'') = TOOL_CALL_RESULT" by (simp add: event_defs)
  have committed: "processEvent (''u1'', ''u2'') (toolCallResult ''t1'' ''found'')
        (initialState\<lparr> messages :=
           [assistantWithToolCalls ''a1'' [snapshotToolCall ''t1'' ''search'' (Some ToolRunning)],
            assistantWithToolCalls ''a2'' [snapshotToolCall ''t0'' ''read'' (Some ToolRunning),
              snapshotToolCall ''t1'' ''search'' (Some ToolRunning),
              snapshotToolCall ''t1'' ''search'' (Some ToolPending)]] \<rparr>, {})
     = (initialState\<lparr> messages :=
           [assistantWithToolCalls ''a1'' [snapshotToolCall ''t1'' ''search'' (Some ToolRunning)],
            assistantWithToolCalls ''a2'' [snapshotToolCall ''t0'' ''read'' (Some ToolRunning),
              (snapshotToolCall ''t1'' ''search'' (Some ToolCompleted))
                 \<lparr> tc_result := Some ''found'' \<rparr>,
              snapshotToolCall ''t1'' ''search'' (Some ToolPending)]] \<rparr>, {})"
  proof -
    let ?e = "toolCallResult ''t1'' ''found''"
    let ?a1 = "assistantWithToolCalls ''a1'' [snapshotToolCall ''t1'' ''search'' (Some ToolRunning)]"
    let ?tcs = "[snapshotToolCall ''t0'' ''read'' (Some ToolRunning),
                snapshotToolCall ''t1'' ''search'' (Some ToolRunning),
                snapshotToolCall ''t1'' ''search'' (Some ToolPending)]"
    let ?a2 = "assistantWithToolCalls ''a2'' ?tcs"
    let ?s = "initialState\<lparr> messages := [?a1, ?a2] \<rparr>"
    have h: "e_type ?e = TOOL_CALL_RESULT" by (simp add: event_defs)
    have t: "e_toolCallId ?e = ''t1''" "e_content ?e = ''found''" by (simp_all add: event_defs)
    have msgs: "messages ?s = [?a1, ?a2]" by simp
    have has: "hasToolCall ''t1'' ?a1" "hasToolCall ''t1'' ?a2"
      by (simp_all add: event_defs js_defs)
    have tcs: "m_toolCalls ?a2 = Some ?tcs" by (simp add: event_defs js_defs)
    have ids: "map tc_id ?tcs = [''t0'', ''t1'', ''t1'']" by (simp add: event_defs)
    have pre: "e_toolCallId ?e \<noteq> [] \<and> list_ex (hasToolCall (e_toolCallId ?e)) (messages ?s)"
      using has by (simp add: t)
    from C7_tool_result_attached [OF h, of ?s "(''u1'', ''u2'')" "{}"] pre
    obtain i tcs k where p: "i < length (messages ?s)"
        "\<forall>i'<length (messages ?s). i < i' \<longrightarrow> \<not> hasToolCall ''t1'' (messages ?s ! i')"
        "m_toolCalls (messages ?s ! i) = Some tcs" "k < length tcs" "tc_id (tcs ! k) = ''t1''"
        "\<forall>k'<k. tc_id (tcs ! k') \<noteq> ''t1''"
        "processEvent (''u1'', ''u2'') ?e (?s, {})
           = (?s\<lparr> messages := (messages ?s)[i := (messages ?s ! i)\<lparr> m_toolCalls :=
                Some (tcs[k := (tcs ! k)\<lparr> tc_result := Some ''found'',
                                            tc_status := Some ToolCompleted \<rparr>]) \<rparr>] \<rparr>, {})"
      unfolding t by blast
    have i: "i = 1"
    proof (rule ccontr)
      assume "i \<noteq> 1"
      with p(1) have lt: "i < 1" by (simp add: msgs)
      have l: "1 < length (messages ?s)" by simp
      from p(2) [rule_format, OF l lt] has(2) show False by simp
    qed
    have tcs': "tcs = ?tcs" using p(3) tcs by (simp add: i msgs)
    have k: "k = 1"
    proof -
      have "k < 3" using p(4) by (simp add: tcs')
      moreover have "k \<noteq> 0"
      proof
        assume "k = 0"
        with p(5) show False by (simp add: tcs' event_defs)
      qed
      moreover have "k \<noteq> 2"
      proof
        assume "k = 2"
        then have "1 < k" by simp
        from p(6) [rule_format, OF this] have "tc_id (tcs ! 1) \<noteq> ''t1''" .
        then show False by (simp add: tcs' event_defs)
      qed
      ultimately show ?thesis by arith
    qed
    have "processEvent (''u1'', ''u2'') ?e (?s, {})
       = (initialState\<lparr> messages :=
             [?a1, assistantWithToolCalls ''a2'' [snapshotToolCall ''t0'' ''read'' (Some ToolRunning),
                (snapshotToolCall ''t1'' ''search'' (Some ToolCompleted))
                   \<lparr> tc_result := Some ''found'' \<rparr>,
                snapshotToolCall ''t1'' ''search'' (Some ToolPending)]] \<rparr>, {})"
      unfolding p(7) i k tcs' by (simp add: event_defs js_defs)
    then show ?thesis .
  qed
  have buffered: "processEvent (''u1'', ''u2'') (toolCallResult ''C'' ''found'')
        (initialState\<lparr> pendingChildren :=
           [(''Q'', [toolMessage ''c0'' ''X'' (snapshotToolCall ''X'' ''read'' (Some ToolCompleted)) None]),
            (''P'', [toolMessage ''c1'' ''Y'' (snapshotToolCall ''Y'' ''read'' (Some ToolCompleted)) None,
                     toolMessage ''c2'' ''C'' (snapshotToolCall ''C'' ''read'' (Some ToolRunning)) None])] \<rparr>, {})
     = (initialState\<lparr> pendingChildren :=
           [(''Q'', [toolMessage ''c0'' ''X'' (snapshotToolCall ''X'' ''read'' (Some ToolCompleted)) None]),
            (''P'', [toolMessage ''c1'' ''Y'' (snapshotToolCall ''Y'' ''read'' (Some ToolCompleted)) None,
                     toolMessage ''c2'' ''C'' ((snapshotToolCall ''C'' ''read'' (Some ToolCompleted))
                        \<lparr> tc_result := Some ''found'' \<rparr>) None])] \<rparr>, {})"
  proof -
    let ?e = "toolCallResult ''C'' ''found''"
    let ?c0 = "toolMessage ''c0'' ''X'' (snapshotToolCall ''X'' ''read'' (Some ToolCompleted)) None"
    let ?c1 = "toolMessage ''c1'' ''Y'' (snapshotToolCall ''Y'' ''read'' (Some ToolCompleted)) None"
    let ?c2 = "toolMessage ''c2'' ''C'' (snapshotToolCall ''C'' ''read'' (Some ToolRunning)) None"
    let ?pc = "[(''Q'', [?c0]), (''P'', [?c1, ?c2])]"
    let ?s = "initialState\<lparr> pendingChildren := ?pc \<rparr>"
    have h: "e_type ?e = TOOL_CALL_RESULT" by (simp add: event_defs)
    have t: "e_toolCallId ?e = ''C''" "e_content ?e = ''found''" by (simp_all add: event_defs)
    have pc: "pendingChildren ?s = ?pc" by simp
    have tcs0: "m_toolCalls ?c0 = Some [snapshotToolCall ''X'' ''read'' (Some ToolCompleted)]"
      and tcs1: "m_toolCalls ?c1 = Some [snapshotToolCall ''Y'' ''read'' (Some ToolCompleted)]"
      and tcs2: "m_toolCalls ?c2 = Some [snapshotToolCall ''C'' ''read'' (Some ToolRunning)]"
      by (simp_all add: js_defs)
    have pre: "e_toolCallId ?e \<noteq> [] \<and> \<not> list_ex (hasToolCall (e_toolCallId ?e)) (messages ?s)
        \<and> list_ex (\<lambda>(p, children). list_ex (hasToolCall (e_toolCallId ?e)) children)
             (pendingChildren ?s)"
      by (simp add: t initialState_def js_defs event_defs)
    from C7_tool_result_attached [OF h, of ?s "(''u1'', ''u2'')" "{}"] pre
    obtain p parentId children j tcs k where q: "p < length (pendingChildren ?s)"
        "pendingChildren ?s ! p = (parentId, children)"
        "j < length children" "m_toolCalls (children ! j) = Some tcs"
        "k < length tcs" "tc_id (tcs ! k) = ''C''"
        "processEvent (''u1'', ''u2'') ?e (?s, {})
           = (?s\<lparr> pendingChildren := AList.update parentId
                (children[j := (children ! j)\<lparr> m_toolCalls :=
                   Some (tcs[k := (tcs ! k)\<lparr> tc_result := Some ''found'',
                                               tc_status := Some ToolCompleted \<rparr>]) \<rparr>])
                (pendingChildren ?s) \<rparr>, {})"
      unfolding t by blast
    have p: "p = 1"
    proof (rule ccontr)
      assume "p \<noteq> 1"
      with q(1) have p0: "p = 0" by simp
      with q(2) have c: "children = [?c0]" by simp
      with q(3) have "j = 0" by simp
      with q(4) c tcs0 have "tcs = [snapshotToolCall ''X'' ''read'' (Some ToolCompleted)]" by simp
      with q(5,6) show False by (simp add: event_defs)
    qed
    from q(2) have par: "parentId = ''P''" and c: "children = [?c1, ?c2]" by (simp_all add: p)
    have j: "j = 1"
    proof (rule ccontr)
      assume "j \<noteq> 1"
      with q(3) have "j = 0" by (simp add: c)
      with q(4) c tcs1 have "tcs = [snapshotToolCall ''Y'' ''read'' (Some ToolCompleted)]" by simp
      with q(5,6) show False by (simp add: event_defs)
    qed
    from q(4) tcs2 have tcs: "tcs = [snapshotToolCall ''C'' ''read'' (Some ToolRunning)]"
      by (simp add: j c)
    with q(5) have k: "k = 0" by simp
    show ?thesis
      unfolding q(7) par c j tcs k by (simp add: event_defs js_defs)
  qed
  have dropped: "processEvent (''u1'', ''u2'') (toolCallResult ''zz'' ''found'') (initialState, {})
       = (initialState, {})"
  proof -
    let ?e = "toolCallResult ''zz'' ''found''"
    have h: "e_type ?e = TOOL_CALL_RESULT" by (simp add: event_defs)
    have n: "e_toolCallId ?e = []
         \<or> \<not> list_ex (hasToolCall (e_toolCallId ?e)) (messages initialState)
           \<and> \<not> list_ex (\<lambda>(p, children). list_ex (hasToolCall (e_toolCallId ?e)) children)
                (pendingChildren initialState)"
      by (simp add: initialState_def)
    from C7_tool_result_attached [OF h, of initialState "(''u1'', ''u2'')" "{}",
        THEN conjunct2, THEN conjunct2, THEN mp, OF n]
    show ?thesis .
  qed
  from h committed buffered dropped show ?thesis by (intro conjI)
qed

theorem C7_empty_id_counterexample:
  "list_ex (hasToolCall (e_toolCallId (toolCallResult [] ''found'')))
     (messages (fst (processEvent (''u1'', ''u2'')
        (messagesSnapshot [assistantWithToolCalls ''a1'' [snapshotToolCall [] ''search'' None]])
        (initialState, {}))))
   \<and> fst (processEvent (''u3'', ''u4'') (toolCallResult [] ''found'')
        (processEvent (''u1'', ''u2'')
          (messagesSnapshot [assistantWithToolCalls ''a1'' [snapshotToolCall [] ''search'' None]])
          (initialState, {})))
     = fst (processEvent (''u1'', ''u2'')
          (messagesSnapshot [assistantWithToolCalls ''a1'' [snapshotToolCall [] ''search'' None]])
          (initialState, {}))
   \<and> map (map tc_result \<circ> toolCallsOf) (messages (fst (processEvent (''u3'', ''u4'')
        (toolCallResult [] ''found'')
        (processEvent (''u1'', ''u2'')
          (messagesSnapshot [assistantWithToolCalls ''a1'' [snapshotToolCall [] ''search'' None]])
          (initialState, {}))))) = [[None]]"
  by code_simp

end
